theory Spec2Isabelle
  imports Main "HOL-Library.Word" "HOL-Library.AList"
begin

section \<open>Chat relay server: data model\<close>

text \<open>
  The development embeds \<^verbatim>\<open>server.py\<close> and the receive loop of \<^verbatim>\<open>client.py\<close>.
  A Python \<^verbatim>\<open>str\<close> is a list of code points, a \<^verbatim>\<open>bytes\<close> object a list of 8-bit
  words, a socket object is known by its identity (a number), since the code compares
  sockets with \<^verbatim>\<open>is\<close> and uses them as dictionary keys.
\<close>

type_synonym byte = "8 word"
type_synonym bytes = "byte list"
type_synonym pstr = "nat list"
type_synonym sock = nat

datatype exn = OSError | UnicodeDecodeError | UnicodeEncodeError | ValueError

datatype errors = Strict | Replace

subsection \<open>Python string operations used by the server\<close>

text \<open>\<^verbatim>\<open>str.isspace\<close> on one code point: the code points Python 3 treats as whitespace.\<close>

definition py_isspace :: "nat \<Rightarrow> bool" where
  "py_isspace c \<longleftrightarrow>
     (0x09 \<le> c \<and> c \<le> 0x0D) \<or> (0x1C \<le> c \<and> c \<le> 0x20) \<or> c = 0x85 \<or> c = 0xA0 \<or>
     c = 0x1680 \<or> (0x2000 \<le> c \<and> c \<le> 0x200A) \<or> c = 0x2028 \<or> c = 0x2029 \<or>
     c = 0x202F \<or> c = 0x205F \<or> c = 0x3000"

text \<open>\<^verbatim>\<open>s.strip()\<close>: leading and trailing whitespace removed.\<close>

definition py_strip :: "pstr \<Rightarrow> pstr" where
  "py_strip s = rev (dropWhile py_isspace (rev (dropWhile py_isspace s)))"

text \<open>\<^verbatim>\<open>s.startswith(p)\<close>.\<close>

definition startswith :: "'a list \<Rightarrow> 'a list \<Rightarrow> bool" where
  "startswith s p \<longleftrightarrow> take (length p) s = p"

text \<open>
  \<^verbatim>\<open>s.split(sep, maxsplit)\<close> for a separator of length one: at most \<^verbatim>\<open>maxsplit\<close>
  cuts, from the left; adjacent separators give empty fields.
\<close>

fun py_split :: "'a \<Rightarrow> nat \<Rightarrow> 'a list \<Rightarrow> 'a list list" where
  "py_split sep 0 s = [s]"
| "py_split sep (Suc n) s =
     (if sep \<in> set s
      then takeWhile (\<lambda>c. c \<noteq> sep) s # py_split sep n (tl (dropWhile (\<lambda>c. c \<noteq> sep) s))
      else [s])"

subsection \<open>UTF-8\<close>

text \<open>
  \<^verbatim>\<open>bytes.decode('utf-8', errors=...)\<close>. One step reads the longest prefix that can
  still begin a well-formed sequence: it yields the code point and the number of bytes
  read, or no code point and the number of bytes of the ill-formed prefix.
\<close>

definition in_range :: "byte \<Rightarrow> byte \<Rightarrow> byte \<Rightarrow> bool" where
  "in_range lo hi b \<longleftrightarrow> lo \<le> b \<and> b \<le> hi"

definition second_lo :: "byte \<Rightarrow> byte" where
  "second_lo b = (if b = 0xE0 then 0xA0 else if b = 0xF0 then 0x90 else 0x80)"

definition second_hi :: "byte \<Rightarrow> byte" where
  "second_hi b = (if b = 0xED then 0x9F else if b = 0xF4 then 0x8F else 0xBF)"

fun utf8_step :: "bytes \<Rightarrow> nat option \<times> nat" where
  "utf8_step [] = (None, 1)"
| "utf8_step (b # bs) =
     (if b < 0x80 then (Some (unat b), 1)
      else if in_range 0xC2 0xDF b then
        (case bs of
           c1 # _ \<Rightarrow>
             if in_range 0x80 0xBF c1
             then (Some ((unat b - 0xC0) * 64 + (unat c1 - 0x80)), 2)
             else (None, 1)
         | [] \<Rightarrow> (None, 1))
      else if in_range 0xE0 0xEF b then
        (case bs of
           c1 # c2 # _ \<Rightarrow>
             if \<not> in_range (second_lo b) (second_hi b) c1 then (None, 1)
             else if \<not> in_range 0x80 0xBF c2 then (None, 2)
             else (Some ((unat b - 0xE0) * 4096 + (unat c1 - 0x80) * 64 + (unat c2 - 0x80)), 3)
         | [c1] \<Rightarrow> if in_range (second_lo b) (second_hi b) c1 then (None, 2) else (None, 1)
         | [] \<Rightarrow> (None, 1))
      else if in_range 0xF0 0xF4 b then
        (case bs of
           c1 # c2 # c3 # _ \<Rightarrow>
             if \<not> in_range (second_lo b) (second_hi b) c1 then (None, 1)
             else if \<not> in_range 0x80 0xBF c2 then (None, 2)
             else if \<not> in_range 0x80 0xBF c3 then (None, 3)
             else (Some ((unat b - 0xF0) * 262144 + (unat c1 - 0x80) * 4096
                         + (unat c2 - 0x80) * 64 + (unat c3 - 0x80)), 4)
         | [c1, c2] \<Rightarrow>
             if \<not> in_range (second_lo b) (second_hi b) c1 then (None, 1)
             else if \<not> in_range 0x80 0xBF c2 then (None, 2)
             else (None, 3)
         | [c1] \<Rightarrow> if in_range (second_lo b) (second_hi b) c1 then (None, 2) else (None, 1)
         | [] \<Rightarrow> (None, 1))
      else (None, 1))"

lemma utf8_step_pos: "0 < snd (utf8_step bs)"
  by (cases bs) (auto split: list.splits)

declare utf8_step.simps [simp del]

lemma utf8_step_consumes: "(r, n) = utf8_step bs \<Longrightarrow> 0 < n"
  using utf8_step_pos [of bs] by (cases "utf8_step bs") simp

function py_decode :: "errors \<Rightarrow> bytes \<Rightarrow> exn + pstr" where
  "py_decode e [] = Inr []"
| "py_decode e (b # bs) =
     (case utf8_step (b # bs) of
        (Some c, n) \<Rightarrow> map_sum id ((#) c) (py_decode e (drop n (b # bs)))
      | (None, n) \<Rightarrow>
          (case e of
             Strict \<Rightarrow> Inl UnicodeDecodeError
           | Replace \<Rightarrow> map_sum id ((#) 0xFFFD) (py_decode e (drop n (b # bs)))))"
  by pat_completeness auto
termination
  by (relation "measure (\<lambda>(e, bs). length bs)")
     (auto dest: utf8_step_consumes)

text \<open>
  \<^verbatim>\<open>str.encode('utf-8')\<close>. A lone surrogate cannot be encoded: \<^verbatim>\<open>errors='replace'\<close>
  writes \<^verbatim>\<open>?\<close> for it, the default raises. Code points of a \<^verbatim>\<open>str\<close> are below
  \<^verbatim>\<open>0x110000\<close>.
\<close>

definition is_surrogate :: "nat \<Rightarrow> bool" where
  "is_surrogate c \<longleftrightarrow> 0xD800 \<le> c \<and> c \<le> 0xDFFF"

definition utf8_encode_cp :: "nat \<Rightarrow> bytes" where
  "utf8_encode_cp c =
     (if c < 0x80 then [of_nat c]
      else if c < 0x800 then [of_nat (0xC0 + c div 64), of_nat (0x80 + c mod 64)]
      else if c < 0x10000 then
        [of_nat (0xE0 + c div 4096), of_nat (0x80 + c div 64 mod 64), of_nat (0x80 + c mod 64)]
      else
        [of_nat (0xF0 + c div 262144), of_nat (0x80 + c div 4096 mod 64),
         of_nat (0x80 + c div 64 mod 64), of_nat (0x80 + c mod 64)])"

fun py_encode_replace :: "pstr \<Rightarrow> bytes" where
  "py_encode_replace [] = []"
| "py_encode_replace (c # cs) =
     (if is_surrogate c then [0x3F] else utf8_encode_cp c) @ py_encode_replace cs"

fun py_encode :: "pstr \<Rightarrow> exn + bytes" where
  "py_encode [] = Inr []"
| "py_encode (c # cs) =
     (if is_surrogate c then Inl UnicodeEncodeError
      else map_sum id ((@) (utf8_encode_cp c)) (py_encode cs))"

subsection \<open>Reading a line\<close>

text \<open>
  What \<^verbatim>\<open>sock.recv(4096)\<close> returns, call after call, is the input of a session: a
  chunk of bytes, or an \<^verbatim>\<open>OSError\<close>. An empty chunk, and the end of the list, is the
  peer's end of stream. A socket this process has closed raises on \<^verbatim>\<open>recv\<close>.
\<close>

datatype rx = Chunk bytes | RxError

fun sock_recv :: "bool \<Rightarrow> rx list \<Rightarrow> (exn + bytes) \<times> rx list" where
  "sock_recv True inp = (Inl OSError, inp)"
| "sock_recv False [] = (Inr [], [])"
| "sock_recv False (RxError # inp) = (Inl OSError, inp)"
| "sock_recv False (Chunk c # inp) = (Inr c, inp)"

lemma sock_recv_length: "length (snd (sock_recv cl inp)) \<le> length inp"
  by (cases "(cl, inp)" rule: sock_recv.cases) auto

lemma sock_recv_shorter:
  "(Inr c, inp') = sock_recv cl inp \<Longrightarrow> c \<noteq> [] \<Longrightarrow> length inp' < length inp"
  by (cases "(cl, inp)" rule: sock_recv.cases) auto

text \<open>
  \<^verbatim>\<open>recv_line\<close>: the loop over the local buffer \<^verbatim>\<open>buf\<close>, which starts empty at every
  call. When the buffer holds a newline the line before it is decoded and returned, and
  the rest of the buffer goes out of scope with the call.
\<close>

function recv_line_loop :: "bool \<Rightarrow> bytes \<Rightarrow> rx list \<Rightarrow> pstr option \<times> rx list" where
  "recv_line_loop cl buf inp =
     (if 0x0A \<in> set buf then
        (case py_split 0x0A 1 buf of
           [line, rest] \<Rightarrow>
             (case py_decode Replace line of
                Inr s \<Rightarrow> (Some s, inp)
              | Inl _ \<Rightarrow> (None, inp))
         | _ \<Rightarrow> (None, inp))
      else
        (case sock_recv cl inp of
           (Inl _, inp') \<Rightarrow> (None, inp')
         | (Inr chunk, inp') \<Rightarrow>
             if chunk = [] then (None, inp') else recv_line_loop cl (buf @ chunk) inp'))"
  by pat_completeness auto
termination
  by (relation "measure (\<lambda>(cl, buf, inp). length inp)")
     (auto dest: sock_recv_shorter)

definition recv_line :: "bool \<Rightarrow> rx list \<Rightarrow> pstr option \<times> rx list" where
  "recv_line cl inp = recv_line_loop cl [] inp"

subsection \<open>The client's receive loop\<close>

text \<open>
  \<^verbatim>\<open>recv_loop\<close> of the client keeps its buffer across chunks and prints every complete
  line; the value is the list of lines printed.
\<close>

lemma tl_dropWhile_shorter: "x \<in> set xs \<Longrightarrow> length (tl (dropWhile P xs)) < length xs"
proof -
  assume "x \<in> set xs"
  then have "0 < length xs" by (cases xs) auto
  with length_dropWhile_le [of P xs] show ?thesis
    by (simp del: length_greater_0_conv)
qed

function print_lines :: "bytes \<Rightarrow> pstr list \<Rightarrow> bytes \<times> pstr list" where
  "print_lines buf out =
     (if 0x0A \<in> set buf then
        (case py_split 0x0A 1 buf of
           [line, rest] \<Rightarrow>
             print_lines rest
               (case py_decode Replace line of Inr s \<Rightarrow> out @ [s] | Inl _ \<Rightarrow> out)
         | _ \<Rightarrow> (buf, out))
      else (buf, out))"
  by pat_completeness auto
termination
  by (relation "measure (\<lambda>(buf, out). length buf)")
     (auto simp del: length_tl dest: tl_dropWhile_shorter split: if_splits)

function recv_loop :: "bool \<Rightarrow> bytes \<Rightarrow> rx list \<Rightarrow> pstr list \<Rightarrow> pstr list" where
  "recv_loop cl buf inp out =
     (case sock_recv cl inp of
        (Inl _, inp') \<Rightarrow> out
      | (Inr chunk, inp') \<Rightarrow>
          if chunk = [] then out
          else (case print_lines (buf @ chunk) out of
                  (buf', out') \<Rightarrow> recv_loop cl buf' inp' out'))"
  by pat_completeness auto
termination
  by (relation "measure (\<lambda>(cl, buf, inp, out). length inp)")
     (auto dest: sock_recv_shorter)

section \<open>The server\<close>

subsection \<open>Shared state and sockets\<close>

text \<open>
  \<^verbatim>\<open>clients\<close> is the dictionary from socket to nickname, in insertion order. The rest
  of the record is the environment the code acts on: the sockets this process has
  closed, the sockets whose peer is gone (every \<^verbatim>\<open>sendall\<close> on them raises
  \<^verbatim>\<open>OSError\<close>, as it does on a closed socket), and the payloads that \<^verbatim>\<open>sendall\<close>
  has delivered, in order and with the socket each went to. A \<^verbatim>\<open>sendall\<close> that
  raises delivers nothing, and \<^verbatim>\<open>OSError\<close> is the only exception it raises. The
  handlers run one at a time: every call below is taken as atomic.
\<close>

record world =
  clients :: "(sock \<times> pstr) list"
  closed :: "sock set"
  broken :: "sock set"
  wire :: "(sock \<times> bytes) list"

definition sendall :: "sock \<Rightarrow> bytes \<Rightarrow> world \<Rightarrow> exn + world" where
  "sendall s data w =
     (if s \<in> closed w \<or> s \<in> broken w then Inl OSError
      else Inr (w\<lparr>wire := wire w @ [(s, data)]\<rparr>))"

definition sock_close :: "sock \<Rightarrow> world \<Rightarrow> world" where
  "sock_close s w = w\<lparr>closed := insert s (closed w)\<rparr>"

text \<open>\<^verbatim>\<open>clients.pop(sock, None)\<close> and \<^verbatim>\<open>clients[sock] = nickname\<close>.\<close>

definition clients_pop :: "sock \<Rightarrow> world \<Rightarrow> pstr option \<times> world" where
  "clients_pop s w = (map_of (clients w) s, w\<lparr>clients := AList.delete s (clients w)\<rparr>)"

definition clients_set :: "sock \<Rightarrow> pstr \<Rightarrow> world \<Rightarrow> world" where
  "clients_set s nickname w = w\<lparr>clients := AList.update s nickname (clients w)\<rparr>"

text \<open>The truth value of \<^verbatim>\<open>nickname\<close> in \<^verbatim>\<open>if nickname:\<close>.\<close>

definition truthy :: "pstr option \<Rightarrow> bool" where
  "truthy v \<longleftrightarrow> (case v of None \<Rightarrow> False | Some s \<Rightarrow> s \<noteq> [])"

subsection \<open>Message texts\<close>

definition sys_open :: pstr where
  "sys_open = [0x5B, 0x53, 0x59, 0x53, 0x54, 0x45, 0x4D, 0x5D, 0x20, 0x5B]"

definition departure_msg :: "pstr \<Rightarrow> pstr" where
  "departure_msg nickname = sys_open @ nickname @
     [0x5D, 0x20, 0xB2D8, 0xC774, 0x20, 0xD1F4, 0xC7A5, 0xD558, 0xC168, 0xC2B5, 0xB2C8, 0xB2E4, 0x2E]"

definition join_msg :: "pstr \<Rightarrow> pstr" where
  "join_msg nickname = sys_open @ nickname @
     [0x5D, 0x20, 0xB2D8, 0xC774, 0x20, 0xC785, 0xC7A5, 0xD558, 0xC168, 0xC2B5, 0xB2C8, 0xB2E4, 0x2E]"

definition empty_nick_msg :: pstr where
  "empty_nick_msg =
     [0x5B, 0x53, 0x59, 0x53, 0x54, 0x45, 0x4D, 0x5D, 0x20, 0xB2C9, 0xB124, 0xC784, 0xC774,
      0x20, 0xBE44, 0xC5C8, 0xC2B5, 0xB2C8, 0xB2E4, 0x2E, 0x0A]"

definition welcome_msg :: pstr where
  "welcome_msg =
     [0x5B, 0x53, 0x59, 0x53, 0x54, 0x45, 0x4D, 0x5D, 0x20, 0xC5F0, 0xACB0, 0xB428, 0x2E,
      0x20, 0x22, 0x2F, 0xC885, 0xB8CC, 0x22, 0x20, 0xC885, 0xB8CC, 0x2C, 0x20, 0x22, 0x2F,
      0x77, 0x20, 0xB2C9, 0x20, 0xBA54, 0xC2DC, 0xC9C0, 0x22, 0x20, 0xADD3, 0xC18D, 0xB9D0,
      0x2E, 0x0A]"

definition usage_msg :: pstr where
  "usage_msg =
     [0x5B, 0x53, 0x59, 0x53, 0x54, 0x45, 0x4D, 0x5D, 0x20, 0xC0AC, 0xC6A9, 0xBC95, 0x3A,
      0x20, 0x2F, 0x77, 0x20, 0xB2C9, 0xB124, 0xC784, 0x20, 0xBA54, 0xC2DC, 0xC9C0, 0x0A]"

definition quit_cmd :: pstr where
  "quit_cmd = [0x2F, 0xC885, 0xB8CC]"

definition whisper_prefix :: pstr where
  "whisper_prefix = [0x2F, 0x77, 0x20]"

definition notfound_msg :: "pstr \<Rightarrow> pstr" where
  "notfound_msg target_name =
     [0x5B, 0x53, 0x59, 0x53, 0x54, 0x45, 0x4D, 0x5D, 0x20, 0xB300, 0xC0C1, 0x20, 0x5B]
     @ target_name @ [0x5D, 0x20, 0xC5C6, 0xC74C, 0x2E, 0x0A]"

definition whisper_msg :: "pstr \<Rightarrow> pstr \<Rightarrow> pstr" where
  "whisper_msg sender content =
     [0x28, 0xADD3, 0xC18D, 0xB9D0, 0x29, 0x20] @ sender @ [0x3E, 0x20] @ content"

definition whisper_sent_msg :: "pstr \<Rightarrow> pstr \<Rightarrow> pstr" where
  "whisper_sent_msg target_name content =
     [0x28, 0xADD3, 0xC18D, 0xB9D0, 0x20, 0xBCF4, 0xB0C4, 0x29, 0x20] @ target_name
     @ [0xC5D0, 0xAC8C, 0x3E, 0x20] @ content"

definition chat_msg :: "pstr \<Rightarrow> pstr \<Rightarrow> pstr" where
  "chat_msg nickname text = nickname @ [0x3E, 0x20] @ text"

subsection \<open>broadcast and remove\_client\<close>

text \<open>
  \<^verbatim>\<open>broadcast\<close> takes its targets from the dictionary, then sends to each; a failed
  send calls \<^verbatim>\<open>remove_client\<close>, which calls \<^verbatim>\<open>broadcast\<close> again for the departure
  line. \<^verbatim>\<open>broadcast_loop\<close> is the \<^verbatim>\<open>for s in targets\<close> loop.
\<close>

function broadcast :: "pstr \<Rightarrow> sock option \<Rightarrow> world \<Rightarrow> world"
  and broadcast_loop :: "bytes \<Rightarrow> sock list \<Rightarrow> world \<Rightarrow> world"
  and remove_client :: "sock \<Rightarrow> world \<Rightarrow> world"
where
  "broadcast text exclude w =
     broadcast_loop (py_encode_replace (text @ [0x0A]))
       (filter (\<lambda>s. Some s \<noteq> exclude) (map fst (clients w))) w"
| "broadcast_loop data [] w = w"
| "broadcast_loop data (s # targets) w =
     (case sendall s data w of
        Inr w' \<Rightarrow> broadcast_loop data targets w'
      | Inl _ \<Rightarrow> broadcast_loop data targets (remove_client s w))"
| "remove_client sock w =
     (case clients_pop sock w of
        (nickname, w1) \<Rightarrow>
          let w2 = sock_close sock w1 in
          if truthy nickname then broadcast (departure_msg (the nickname)) None w2 else w2)"
  by pat_completeness auto

lemma delete_length_less:
  "map_of al k = Some v \<Longrightarrow> length (AList.delete k al) < length al"
  by (induction al) (auto simp: less_Suc_eq_le length_delete_le split: if_splits)

lemma sendall_clients: "sendall s d w = Inr w' \<Longrightarrow> clients w' = clients w"
  by (auto simp: sendall_def split: if_splits)

lemma clients_pop_length:
  "clients_pop s w = (n, w1) \<Longrightarrow> length (clients (sock_close s w1)) \<le> length (clients w)"
  by (auto simp: clients_pop_def sock_close_def length_delete_le)

lemma clients_pop_length_less:
  "clients_pop s w = (n, w1) \<Longrightarrow> truthy n \<Longrightarrow>
   length (clients (sock_close s w1)) < length (clients w)"
  by (auto simp: clients_pop_def sock_close_def truthy_def delete_length_less
           split: option.splits)

text \<open>
  The nested call in the loop needs, before termination is known, that no call adds an
  entry to the dictionary.
\<close>

lemma clients_length_partial:
  "broadcast_broadcast_loop_remove_client_dom (Inl (t, e, w)) \<Longrightarrow>
     length (clients (broadcast t e w)) \<le> length (clients w)"
  "broadcast_broadcast_loop_remove_client_dom (Inr (Inl (d, ts, w))) \<Longrightarrow>
     length (clients (broadcast_loop d ts w)) \<le> length (clients w)"
  "broadcast_broadcast_loop_remove_client_dom (Inr (Inr (s, w))) \<Longrightarrow>
     length (clients (remove_client s w)) \<le> length (clients w)"
proof (induct rule: broadcast_broadcast_loop_remove_client.pinduct)
  case (1 t exclude w)
  then show ?case by (simp add: broadcast.psimps)
next
  case (2 data w)
  then show ?case by (simp add: broadcast_loop.psimps)
next
  case (3 data s targets w)
  show ?case
  proof (cases "sendall s data w")
    case (Inl a)
    with 3 show ?thesis by (simp add: broadcast_loop.psimps)
  next
    case (Inr b)
    with 3 show ?thesis by (simp add: broadcast_loop.psimps sendall_clients)
  qed
next
  case (4 sock w)
  obtain n w1 where pop: "clients_pop sock w = (n, w1)" by (cases "clients_pop sock w")
  show ?case
  proof (cases "truthy n")
    case True
    with 4(2) [OF pop [symmetric] refl True] pop 4(1) clients_pop_length [OF pop]
    show ?thesis by (simp add: remove_client.psimps Let_def)
  next
    case False
    with pop 4(1) clients_pop_length [OF pop]
    show ?thesis by (simp add: remove_client.psimps Let_def)
  qed
qed

termination broadcast
proof (relation "inv_image (less_than <*lex*> less_than <*lex*> less_than)
     (\<lambda>x. case x of Inl (t, e, w) \<Rightarrow> (length (clients w), 2::nat, 0::nat)
                  | Inr (Inl (d, ts, w)) \<Rightarrow> (length (clients w), 1, length ts)
                  | Inr (Inr (s, w)) \<Rightarrow> (length (clients w), 0, 0))", goal_cases)
  case 1
  show ?case by (intro wf_inv_image wf_lex_prod wf_less_than)
next
  case (2 t exclude w)
  show ?case by simp
next
  case (3 data s targets w a)
  show ?case by simp
next
  case (4 data s targets w a)
  from clients_length_partial(3) [OF 4(2)]
  show ?case by (auto simp: le_less)
next
  case (5 data s targets w b)
  then show ?case by (simp add: sendall_clients)
next
  case (6 sock w x y xa)
  from clients_pop_length_less [OF 6(1) [symmetric] 6(3)] 6(2)
  show ?case by simp
qed

subsection \<open>Whisper\<close>

text \<open>
  A call that may raise returns the exception, if any, and the state reached.
  \<^verbatim>\<open>send_text\<close> is \<^verbatim>\<open>sock.sendall(s.encode('utf-8'))\<close>; \<^verbatim>\<open>try_send\<close> is the
  same inside \<^verbatim>\<open>try: ... except OSError: pass\<close>.
\<close>

definition send_text :: "sock \<Rightarrow> pstr \<Rightarrow> world \<Rightarrow> exn option \<times> world" where
  "send_text s t w =
     (case py_encode t of
        Inl e \<Rightarrow> (Some e, w)
      | Inr data \<Rightarrow>
          (case sendall s data w of
             Inl e \<Rightarrow> (Some e, w)
           | Inr w' \<Rightarrow> (None, w')))"

definition try_send :: "sock \<Rightarrow> pstr \<Rightarrow> world \<Rightarrow> exn option \<times> world" where
  "try_send s t w =
     (case py_encode t of
        Inl e \<Rightarrow> (Some e, w)
      | Inr data \<Rightarrow>
          (case sendall s data w of
             Inl _ \<Rightarrow> (None, w)
           | Inr w' \<Rightarrow> (None, w')))"

text \<open>The scan of \<^verbatim>\<open>clients.items()\<close> in \<^verbatim>\<open>send_whisper\<close>: the first socket with the name.\<close>

fun find_target :: "(sock \<times> pstr) list \<Rightarrow> pstr \<Rightarrow> sock option" where
  "find_target [] target_name = None"
| "find_target ((s, name) # rest) target_name =
     (if name = target_name then Some s else find_target rest target_name)"

definition send_whisper :: "pstr \<Rightarrow> pstr \<Rightarrow> pstr \<Rightarrow> sock \<Rightarrow> world \<Rightarrow> exn option \<times> world" where
  "send_whisper sender target_name content sender_sock w =
     (case find_target (clients w) target_name of
        None \<Rightarrow> send_text sender_sock (notfound_msg target_name) w
      | Some target_sock \<Rightarrow>
          (case try_send target_sock (whisper_msg sender content @ [0x0A]) w of
             (Some e, w1) \<Rightarrow> (Some e, w1)
           | (None, w1) \<Rightarrow>
               try_send sender_sock (whisper_sent_msg target_name content @ [0x0A]) w1))"

subsection \<open>The session\<close>

text \<open>
  \<^verbatim>\<open>handle_line\<close> is the body of the \<^verbatim>\<open>while True\<close> loop of \<^verbatim>\<open>handle_client\<close>
  after a line was read: it goes on with the loop, leaves it, or raises.
\<close>

datatype flow = Continue world | Break world | Raise exn world

definition handle_line :: "sock \<Rightarrow> pstr \<Rightarrow> pstr \<Rightarrow> world \<Rightarrow> flow" where
  "handle_line sock nickname line w =
     (let text = py_strip line in
      if text = [] then Continue w
      else if text = quit_cmd then Break w
      else if startswith text whisper_prefix then
        (let parts = py_split 0x20 2 text in
         if length parts < 3 then
           (case send_text sock usage_msg w of
              (Some e, w') \<Rightarrow> Raise e w'
            | (None, w') \<Rightarrow> Continue w')
         else
           (case parts of
              [_, target_name, content] \<Rightarrow>
                (case send_whisper nickname target_name content sock w of
                   (Some e, w') \<Rightarrow> Raise e w'
                 | (None, w') \<Rightarrow> Continue w')
            | _ \<Rightarrow> Raise ValueError w))
      else Continue (broadcast (chat_msg nickname text) None w))"

lemma recv_line_loop_length:
  "recv_line_loop cl buf inp = (r, inp') \<Longrightarrow> length inp' \<le> length inp"
proof (induction cl buf inp rule: recv_line_loop.induct)
  case (1 cl buf inp)
  show ?case
  proof (cases "0x0A \<in> set buf")
    case True
    with "1.prems" show ?thesis
      by (auto split: list.splits sum.splits)
  next
    case False
    obtain x inp1 where rc: "sock_recv cl inp = (x, inp1)" by (cases "sock_recv cl inp")
    have le: "length inp1 \<le> length inp" using sock_recv_length [of cl inp] rc by simp
    show ?thesis
    proof (cases x)
      case (Inl a)
      with False rc "1.prems" le show ?thesis by simp
    next
      case (Inr chunk)
      show ?thesis
      proof (cases "chunk = []")
        case True
        with False rc Inr "1.prems" le show ?thesis by simp
      next
        case ne: False
        from False rc Inr ne "1.prems"
        have "recv_line_loop cl (buf @ chunk) inp1 = (r, inp')" by simp
        from "1.IH" [OF False rc [symmetric] Inr ne this] le show ?thesis by simp
      qed
    qed
  qed
qed

lemma recv_line_shorter:
  assumes "recv_line cl inp = (Some line, inp')"
  shows "length inp' < length inp"
proof -
  obtain x inp1 where rc: "sock_recv cl inp = (x, inp1)" by (cases "sock_recv cl inp")
  from assms rc obtain chunk where x: "x = Inr chunk" and ne: "chunk \<noteq> []"
    and rest: "recv_line_loop cl chunk inp1 = (Some line, inp')"
    by (cases x) (auto simp: recv_line_def split: if_splits)
  from sock_recv_shorter [of chunk inp1 cl inp] rc x ne have "length inp1 < length inp"
    by simp
  with recv_line_loop_length [OF rest] show ?thesis by simp
qed

function session_loop :: "sock \<Rightarrow> pstr \<Rightarrow> rx list \<Rightarrow> world \<Rightarrow> exn option \<times> world" where
  "session_loop sock nickname inp w =
     (case recv_line (sock \<in> closed w) inp of
        (None, inp') \<Rightarrow> (None, w)
      | (Some line, inp') \<Rightarrow>
          (case handle_line sock nickname line w of
             Continue w' \<Rightarrow> session_loop sock nickname inp' w'
           | Break w' \<Rightarrow> (None, w')
           | Raise e w' \<Rightarrow> (Some e, w')))"
  by pat_completeness auto
termination
  by (relation "measure (\<lambda>(sock, nickname, inp, w). length inp)")
     (auto dest: recv_line_shorter [OF sym])

text \<open>
  \<^verbatim>\<open>handle_client\<close>: the body of its \<^verbatim>\<open>try\<close>, then the \<^verbatim>\<open>finally\<close> clause, which
  runs however the body ended; an exception of the body is raised again after it.
\<close>

definition handle_client_body :: "sock \<Rightarrow> rx list \<Rightarrow> world \<Rightarrow> exn option \<times> world" where
  "handle_client_body sock inp w =
     (case recv_line (sock \<in> closed w) inp of
        (nickname, inp1) \<Rightarrow>
          if nickname = None \<or> py_strip (the nickname) = [] then
            (case send_text sock empty_nick_msg w of
               (Some e, w1) \<Rightarrow> (Some e, w1)
             | (None, w1) \<Rightarrow> (None, sock_close sock w1))
          else
            (let nickname = py_strip (the nickname);
                 w1 = clients_set sock nickname w
             in case send_text sock welcome_msg w1 of
                  (Some e, w2) \<Rightarrow> (Some e, w2)
                | (None, w2) \<Rightarrow>
                    session_loop sock nickname inp1 (broadcast (join_msg nickname) None w2)))"

definition handle_client :: "sock \<Rightarrow> rx list \<Rightarrow> world \<Rightarrow> exn option \<times> world" where
  "handle_client sock inp w =
     (case handle_client_body sock inp w of (e, w') \<Rightarrow> (e, remove_client sock w'))"

subsection \<open>Relating two states\<close>

text \<open>
  \<open>extends w w'\<close>: from \<open>w\<close> to \<open>w'\<close> sockets were only closed, entries only removed
  from the dictionary, and payloads only added at the end of what was delivered.
\<close>

definition extends :: "world \<Rightarrow> world \<Rightarrow> bool" where
  "extends w w' \<longleftrightarrow>
     closed w \<subseteq> closed w' \<and> broken w' = broken w \<and> set (clients w') \<subseteq> set (clients w) \<and>
     (\<forall>x. map_of (clients w') x = None \<or> map_of (clients w') x = map_of (clients w) x) \<and>
     (\<exists>ys. wire w' = wire w @ ys)"

text \<open>
  A socket takes a write when it is neither closed nor broken. \<open>delivered w w'\<close> is
  what was delivered after \<open>w\<close>, up to \<open>w'\<close>.
\<close>

definition writable :: "world \<Rightarrow> sock \<Rightarrow> bool" where
  "writable w s \<longleftrightarrow> s \<notin> closed w \<and> s \<notin> broken w"

definition delivered :: "world \<Rightarrow> world \<Rightarrow> (sock \<times> bytes) list" where
  "delivered w w' = drop (length (wire w)) (wire w')"

text \<open>Sockets that take writes are never closed or removed, but for the one being removed.\<close>

definition keeps :: "sock set \<Rightarrow> world \<Rightarrow> world \<Rightarrow> bool" where
  "keeps X w w' \<longleftrightarrow>
     (\<forall>g. writable w g \<and> g \<notin> X \<longrightarrow>
        writable w' g \<and> map_of (clients w') g = map_of (clients w) g)"

text \<open>
  \<open>announces X w w'\<close>: every entry with a nickname that is in the dictionary at \<open>w\<close>
  and no longer at \<open>w'\<close> had its departure line delivered, between \<open>w\<close> and \<open>w'\<close>,
  to every other registered socket that takes writes (those of \<open>X\<close> apart).
\<close>

definition announces :: "sock set \<Rightarrow> world \<Rightarrow> world \<Rightarrow> bool" where
  "announces X w w' \<longleftrightarrow>
     (\<forall>x n g. map_of (clients w) x = Some n \<and> n \<noteq> [] \<and> x \<notin> fst ` set (clients w') \<and>
        writable w g \<and> g \<in> fst ` set (clients w) \<and> g \<notin> X \<and> g \<noteq> x \<longrightarrow>
        (g, py_encode_replace (departure_msg n @ [0x0A])) \<in> set (delivered w w'))"

text \<open>A string without lone surrogates: \<^verbatim>\<open>encode('utf-8')\<close> does not raise on it.\<close>

definition encodable :: "pstr \<Rightarrow> bool" where
  "encodable s \<longleftrightarrow> (\<forall>c \<in> set s. \<not> is_surrogate c)"

section \<open>Properties\<close>

declare recv_line_loop.simps [simp del] print_lines.simps [simp del]
  recv_loop.simps [simp del] session_loop.simps [simp del]
  broadcast.simps [simp del] remove_client.simps [simp del]

subsection \<open>Lines and decoding\<close>

lemma takeWhile_sep:
  "sep \<notin> set xs \<Longrightarrow> takeWhile (\<lambda>c. c \<noteq> sep) (xs @ sep # ys) = xs"
  by (induction xs) auto

lemma dropWhile_sep:
  "sep \<notin> set xs \<Longrightarrow> dropWhile (\<lambda>c. c \<noteq> sep) (xs @ sep # ys) = sep # ys"
  by (induction xs) auto

lemma py_decode_replace_total: "\<exists>s. py_decode Replace bs = Inr s"
proof (induction "Replace" bs rule: py_decode.induct)
  case 1
  show ?case by simp
next
  case (2 b bs)
  obtain r n where st: "utf8_step (b # bs) = (r, n)" by (cases "utf8_step (b # bs)")
  show ?case
  proof (cases r)
    case None
    from 2(1) [OF st [symmetric] None] obtain s
      where "py_decode Replace (drop n (b # bs)) = Inr s" by blast
    with st None show ?thesis by simp
  next
    case (Some c)
    from 2(2) [OF st [symmetric] Some] obtain s
      where "py_decode Replace (drop n (b # bs)) = Inr s" by blast
    with st Some show ?thesis by simp
  qed
qed

lemma recv_line_loop_chunks:
  assumes "0x0A \<notin> set buf" "\<forall>c \<in> set cs. c \<noteq> [] \<and> 0x0A \<notin> set c" "0x0A \<notin> set a"
    and "py_decode Replace (buf @ concat cs @ a) = Inr s"
  shows "recv_line_loop False buf (map Chunk cs @ Chunk (a @ 0x0A # rest) # inp) = (Some s, inp)"
  using assms
proof (induction cs arbitrary: buf)
  case Nil
  have "recv_line_loop False buf (Chunk (a @ 0x0A # rest) # inp)
        = recv_line_loop False (buf @ a @ 0x0A # rest) inp"
    using Nil(1) by (subst recv_line_loop.simps) simp
  also have "\<dots> = (Some s, inp)"
    using Nil takeWhile_sep [of "0x0A" "buf @ a" rest]
    by (subst recv_line_loop.simps) simp
  finally show ?case by simp
next
  case (Cons c cs)
  have "recv_line_loop False buf (map Chunk (c # cs) @ Chunk (a @ 0x0A # rest) # inp)
        = recv_line_loop False (buf @ c) (map Chunk cs @ Chunk (a @ 0x0A # rest) # inp)"
    using Cons.prems by (subst recv_line_loop.simps) simp
  also have "\<dots> = (Some s, inp)"
    using Cons.prems by (intro Cons.IH) auto
  finally show ?case .
qed

text \<open>
  C4, as the code has it. \<^verbatim>\<open>recv_line\<close> returns the bytes before the first newline of
  what it has read (over any number of \<^verbatim>\<open>recv\<close> chunks), decoded, without the newline.
  The bytes \<open>rest\<close> that came after the newline in the same chunk are not kept: the
  result and the input left for the next call do not depend on them, since \<^verbatim>\<open>buf\<close> is
  a local of the call.
\<close>

theorem recv_line_first_line:
  assumes "\<forall>c \<in> set cs. c \<noteq> [] \<and> 0x0A \<notin> set c" and "0x0A \<notin> set a"
  shows "\<exists>s. py_decode Replace (concat cs @ a) = Inr s \<and>
             recv_line False (map Chunk cs @ Chunk (a @ 0x0A # rest) # inp) = (Some s, inp)"
proof -
  obtain s where s: "py_decode Replace (concat cs @ a) = Inr s"
    using py_decode_replace_total by blast
  with assms have "recv_line_loop False [] (map Chunk cs @ Chunk (a @ 0x0A # rest) # inp)
                   = (Some s, inp)"
    by (intro recv_line_loop_chunks) auto
  with s show ?thesis by (auto simp: recv_line_def)
qed

theorem recv_line_first_line_witness:
  "\<exists>s. py_decode Replace (concat [[0x68]] @ [0x69]) = Inr s \<and>
       recv_line False (map Chunk [[0x68]] @ Chunk ([0x69] @ 0x0A # [0x78, 0x0A]) # [])
       = (Some s, [])"
  using recv_line_first_line [of "[[0x68]]" "[0x69]" "[0x78, 0x0A]" "[]"] by simp

text \<open>
  C4 as stated fails: two lines arrive in one chunk, the first call returns the first
  line, and the second call finds the stream at its end; the second line is lost.
\<close>

theorem recv_line_drops_rest_counterexample:
  "(case recv_line False [Chunk [0x61, 0x0A, 0x62, 0x0A]] of
      (first, inp') \<Rightarrow> (first, fst (recv_line False inp'))) = (Some [0x61], None)"
  by (simp add: recv_line_def recv_line_loop.simps utf8_step.simps)

text \<open>
  C5, as the code has it. Both peers decode with \<^verbatim>\<open>errors='replace'\<close>, which never
  raises: whatever the bytes of a line, the server's \<^verbatim>\<open>recv_line\<close> returns its lossy
  decoding, never the failure result, and the client's \<^verbatim>\<open>recv_loop\<close> prints the same
  text.
\<close>

theorem recv_line_lossy_like_client:
  assumes "0x0A \<notin> set line"
  shows "\<exists>s. py_decode Replace line = Inr s \<and>
             recv_line False (Chunk (line @ [0x0A]) # inp) = (Some s, inp) \<and>
             recv_loop False [] [Chunk (line @ [0x0A])] [] = [s]"
proof -
  obtain s where s: "py_decode Replace line = Inr s"
    using py_decode_replace_total by blast
  have "recv_line_loop False [] (map Chunk [] @ Chunk (line @ 0x0A # []) # inp) = (Some s, inp)"
    using assms s by (intro recv_line_loop_chunks) auto
  then have srv: "recv_line False (Chunk (line @ [0x0A]) # inp) = (Some s, inp)"
    by (simp add: recv_line_def)
  have "print_lines (line @ [0x0A]) [] = print_lines [] [s]"
    using assms s takeWhile_sep [of "0x0A" line "[]"] dropWhile_sep [of "0x0A" line "[]"]
    by (subst print_lines.simps) simp
  then have pl: "print_lines (line @ [0x0A]) [] = ([], [s])"
    by (simp add: print_lines.simps)
  have "recv_loop False [] [Chunk (line @ [0x0A])] [] = recv_loop False [] [] [s]"
    using pl by (subst recv_loop.simps) simp
  then have "recv_loop False [] [Chunk (line @ [0x0A])] [] = [s]"
    by (simp add: recv_loop.simps)
  with s srv show ?thesis by blast
qed

theorem recv_line_lossy_like_client_witness:
  "\<exists>s. py_decode Replace [0xFF, 0x41] = Inr s \<and>
       recv_line False (Chunk ([0xFF, 0x41] @ [0x0A]) # []) = (Some s, []) \<and>
       recv_loop False [] [Chunk ([0xFF, 0x41] @ [0x0A])] [] = [s]"
  using recv_line_lossy_like_client [of "[0xFF, 0x41]" "[]"] by simp

text \<open>
  C5 as stated fails: the byte \<^verbatim>\<open>0xFF\<close> is not valid UTF-8 (strict decoding raises),
  yet \<^verbatim>\<open>recv_line\<close> returns a line, with U+FFFD in its place.
\<close>

theorem recv_line_undecodable_counterexample:
  "py_decode Strict [0xFF] = Inl UnicodeDecodeError \<and>
   recv_line False [Chunk [0xFF, 0x0A]] = (Some [0xFFFD], [])"
  by (simp add: recv_line_def recv_line_loop.simps utf8_step.simps in_range_def)

subsection \<open>Teardown\<close>

lemma extends_refl: "extends w w"
  by (simp add: extends_def)

lemma extends_trans:
  assumes "extends w w1" and "extends w1 w2"
  shows "extends w w2"
  unfolding extends_def
proof (intro conjI allI)
  show "closed w \<subseteq> closed w2" using assms by (auto simp: extends_def)
  show "broken w2 = broken w" using assms by (simp add: extends_def)
  show "set (clients w2) \<subseteq> set (clients w)" using assms by (auto simp: extends_def)
  show "\<exists>ys. wire w2 = wire w @ ys" using assms by (auto simp: extends_def)
next
  fix x
  from assms(2) have a: "map_of (clients w2) x = None \<or> map_of (clients w2) x = map_of (clients w1) x"
    by (simp add: extends_def)
  from assms(1) have b: "map_of (clients w1) x = None \<or> map_of (clients w1) x = map_of (clients w) x"
    by (simp add: extends_def)
  from a b show "map_of (clients w2) x = None \<or> map_of (clients w2) x = map_of (clients w) x"
    by auto
qed

lemma extends_closed: "extends w w' \<Longrightarrow> s \<in> closed w \<Longrightarrow> s \<in> closed w'"
  by (auto simp: extends_def)

lemma extends_keys:
  "extends w w' \<Longrightarrow> g \<notin> fst ` set (clients w) \<Longrightarrow> g \<notin> fst ` set (clients w')"
  by (force simp: extends_def)

lemma sendall_extends: "sendall s d w = Inr w' \<Longrightarrow> extends w w'"
  by (auto simp: sendall_def extends_def split: if_splits)

lemma set_delete_subset: "set (AList.delete k al) \<subseteq> set al"
  by (auto simp: AList.delete_eq)

lemma pop_close_extends: "clients_pop s w = (n, w1) \<Longrightarrow> extends w (sock_close s w1)"
  using set_delete_subset [of s "clients w"]
  by (auto simp: clients_pop_def sock_close_def extends_def delete_conv')

lemma broadcast_extends:
  "extends w (broadcast t e w)"
  "extends w (broadcast_loop d ts w)"
  "extends w (remove_client s w)"
proof (induction t e w and d ts w and s w rule: broadcast_broadcast_loop_remove_client.induct)
  case (1 t exclude w)
  then show ?case by (simp add: broadcast.simps)
next
  case (2 data w)
  show ?case by (simp add: extends_refl)
next
  case (3 data s targets w)
  show ?case
  proof (cases "sendall s data w")
    case (Inl a)
    with 3(1,2) show ?thesis by (auto intro: extends_trans)
  next
    case (Inr w')
    with 3(3) sendall_extends [OF Inr] show ?thesis by (auto intro: extends_trans)
  qed
next
  case (4 sock w)
  obtain n w1 where pop: "clients_pop sock w = (n, w1)" by (cases "clients_pop sock w")
  show ?case
  proof (cases "truthy n")
    case True
    with 4 [OF pop [symmetric] refl True] pop pop_close_extends [OF pop] show ?thesis
      by (auto simp: remove_client.simps Let_def intro: extends_trans)
  next
    case False
    with pop pop_close_extends [OF pop] show ?thesis
      by (simp add: remove_client.simps Let_def)
  qed
qed

lemma remove_client_gone:
  "s \<in> closed (remove_client s w) \<and> s \<notin> fst ` set (clients (remove_client s w))"
proof -
  obtain n w1 where pop: "clients_pop s w = (n, w1)" by (cases "clients_pop s w")
  let ?w2 = "sock_close s w1"
  have w2: "s \<in> closed ?w2 \<and> s \<notin> fst ` set (clients ?w2)"
    using pop by (auto simp: clients_pop_def sock_close_def AList.delete_eq)
  show ?thesis
  proof (cases "truthy n")
    case True
    then have eq: "remove_client s w = broadcast (departure_msg (the n)) None ?w2"
      using pop by (simp add: remove_client.simps Let_def)
    from broadcast_extends(1) [of ?w2 "departure_msg (the n)" None] w2
    show ?thesis unfolding eq by (blast intro: extends_closed dest: extends_keys)
  next
    case False
    with pop w2 show ?thesis by (simp add: remove_client.simps Let_def)
  qed
qed

lemma remove_client_absent:
  assumes "s \<notin> fst ` set (clients w)"
  shows "remove_client s w = sock_close s w"
proof -
  from assms have "map_of (clients w) s = None" by (simp add: map_of_eq_None_iff)
  moreover from assms have "AList.delete s (clients w) = clients w" by (rule delete_id)
  ultimately show ?thesis
    by (simp add: remove_client.simps clients_pop_def truthy_def Let_def)
qed

text \<open>
  C8. Popping a socket that is not in the dictionary returns \<^verbatim>\<open>None\<close> and leaves the
  state as it is, and \<^verbatim>\<open>remove_client\<close> then only closes the socket. Running
  \<^verbatim>\<open>remove_client\<close> a second time on the same socket changes nothing at all: the
  dictionary is the same and no second departure line is delivered.
\<close>

theorem teardown_idempotent:
  "(s \<notin> fst ` set (clients w) \<longrightarrow>
      clients_pop s w = (None, w) \<and> remove_client s w = sock_close s w) \<and>
   remove_client s (remove_client s w) = remove_client s w"
proof -
  have "clients_pop s w = (None, w)" if "s \<notin> fst ` set (clients w)"
    using that delete_id [of s "clients w"] by (simp add: clients_pop_def map_of_eq_None_iff)
  moreover have "remove_client s (remove_client s w) = remove_client s w"
    using remove_client_gone [of s w] remove_client_absent [of s "remove_client s w"]
    by (simp add: sock_close_def insert_absorb)
  ultimately show ?thesis using remove_client_absent by blast
qed

theorem teardown_idempotent_witness:
  "2 \<notin> fst ` set (clients \<lparr>clients = [(1, [0x61])], closed = {}, broken = {}, wire = []\<rparr>) \<and>
   clients_pop 2 \<lparr>clients = [(1, [0x61])], closed = {}, broken = {}, wire = []\<rparr>
     = (None, \<lparr>clients = [(1, [0x61])], closed = {}, broken = {}, wire = []\<rparr>) \<and>
   remove_client 2 (remove_client 2 \<lparr>clients = [(1, [0x61])], closed = {}, broken = {}, wire = []\<rparr>)
     = remove_client 2 \<lparr>clients = [(1, [0x61])], closed = {}, broken = {}, wire = []\<rparr>"
proof -
  have "2 \<notin> fst ` set (clients \<lparr>clients = [(1, [0x61])], closed = {}, broken = {}, wire = []\<rparr>)"
    by simp
  with teardown_idempotent
    [of 2 "\<lparr>clients = [(1, [0x61])], closed = {}, broken = {}, wire = []\<rparr>"]
  show ?thesis by blast
qed

subsection \<open>Refusing an empty nickname\<close>

lemma py_strip_empty_iff: "py_strip s = [] \<longleftrightarrow> (\<forall>c \<in> set s. py_isspace c)"
proof
  assume "py_strip s = []"
  then have "dropWhile py_isspace (rev (dropWhile py_isspace s)) = []"
    by (simp add: py_strip_def)
  then have "\<forall>c \<in> set (dropWhile py_isspace s). py_isspace c"
    by simp
  moreover have "dropWhile py_isspace s = [] \<or> \<not> py_isspace (hd (dropWhile py_isspace s))"
    using hd_dropWhile [of py_isspace s] by blast
  ultimately have "dropWhile py_isspace s = []"
    by (cases "dropWhile py_isspace s") auto
  then show "\<forall>c \<in> set s. py_isspace c" by simp
next
  assume "\<forall>c \<in> set s. py_isspace c"
  then show "py_strip s = []" by (auto simp: py_strip_def dest: set_dropWhileD)
qed

lemma py_encode_encodable: "encodable s \<Longrightarrow> py_encode s = Inr (py_encode_replace s)"
  by (induction s) (auto simp: encodable_def)

lemma encodable_append [simp]: "encodable (a @ b) \<longleftrightarrow> encodable a \<and> encodable b"
  by (auto simp: encodable_def)

lemma encodable_fixed [simp]:
  "encodable empty_nick_msg" "encodable welcome_msg" "encodable usage_msg"
  by (simp_all add: encodable_def empty_nick_msg_def welcome_msg_def usage_msg_def is_surrogate_def)

lemma send_text_encodable:
  "encodable t \<Longrightarrow> send_text s t w =
     (if s \<in> closed w \<or> s \<in> broken w then (Some OSError, w)
      else (None, w\<lparr>wire := wire w @ [(s, py_encode_replace t)]\<rparr>))"
  by (simp add: send_text_def py_encode_encodable sendall_def)

text \<open>
  C3. A new connection (not closed, not in the dictionary) whose first line is empty or
  all whitespace: \<^verbatim>\<open>handle_client\<close> makes one \<^verbatim>\<open>sendall\<close>, of the refusal line, to
  that socket, closes the socket and returns. The dictionary is as before, and nothing
  else is delivered, so no join or departure line goes to anyone. When the peer is
  already gone the one \<^verbatim>\<open>sendall\<close> raises and the refusal is not delivered either.
\<close>

theorem empty_nickname_refused:
  assumes "recv_line False inp = (Some line, inp')" and "\<forall>c \<in> set line. py_isspace c"
    and "sock \<notin> closed w" and "sock \<notin> fst ` set (clients w)"
  shows "handle_client sock inp w =
     (if sock \<in> broken w then (Some OSError, sock_close sock w)
      else (None, sock_close sock
              (w\<lparr>wire := wire w @ [(sock, py_encode_replace empty_nick_msg)]\<rparr>)))"
proof -
  from assms(2) have strip: "py_strip line = []" by (simp add: py_strip_empty_iff)
  show ?thesis
  proof (cases "sock \<in> broken w")
    case True
    with assms(1,3) strip have "handle_client_body sock inp w = (Some OSError, w)"
      by (simp add: handle_client_body_def send_text_encodable)
    with True assms(4) show ?thesis
      by (simp add: handle_client_def remove_client_absent)
  next
    case False
    let ?w1 = "w\<lparr>wire := wire w @ [(sock, py_encode_replace empty_nick_msg)]\<rparr>"
    from False assms(1,3) strip
    have "handle_client_body sock inp w = (None, sock_close sock ?w1)"
      by (simp add: handle_client_body_def send_text_encodable)
    moreover have "sock \<notin> fst ` set (clients (sock_close sock ?w1))"
      using assms(4) by (simp add: sock_close_def)
    ultimately show ?thesis using False
      by (simp add: handle_client_def remove_client_absent sock_close_def)
  qed
qed

theorem empty_nickname_refused_witness:
  "recv_line False [Chunk [0x20, 0x0A]] = (Some [0x20], []) \<and>
   py_isspace 0x20 \<and>
   handle_client 2 [Chunk [0x20, 0x0A]]
     \<lparr>clients = [(1, [0x61])], closed = {}, broken = {}, wire = []\<rparr> =
   (None, \<lparr>clients = [(1, [0x61])], closed = {2}, broken = {},
           wire = [(2, py_encode_replace empty_nick_msg)]\<rparr>)"
proof -
  have r: "recv_line False [Chunk [0x20, 0x0A]] = (Some [0x20], [])"
    by (simp add: recv_line_def recv_line_loop.simps utf8_step.simps)
  have s: "\<forall>c \<in> set [0x20]. py_isspace c" by (simp add: py_isspace_def)
  from empty_nickname_refused [OF r s,
      of 2 "\<lparr>clients = [(1, [0x61])], closed = {}, broken = {}, wire = []\<rparr>"] r s
  show ?thesis by (simp add: sock_close_def)
qed

subsection \<open>Strings that come from the wire\<close>

text \<open>
  The decoder never yields a surrogate, so every line \<^verbatim>\<open>recv_line\<close> returns, and
  every part of it, can be encoded again.
\<close>

lemma byte_eq_unat:
  "(b :: byte) = 0xE0 \<longleftrightarrow> unat b = 0xE0" "(b :: byte) = 0xED \<longleftrightarrow> unat b = 0xED"
  "(b :: byte) = 0xF0 \<longleftrightarrow> unat b = 0xF0" "(b :: byte) = 0xF4 \<longleftrightarrow> unat b = 0xF4"
  by (simp_all add: word_unat_eq_iff)

lemma utf8_step_scalar:
  assumes "utf8_step bs = (Some c, n)"
  shows "\<not> is_surrogate c"
proof (cases bs)
  case Nil
  with assms show ?thesis by (simp add: utf8_step.simps)
next
  case (Cons b rest)
  consider "b < 0x80" | "\<not> b < 0x80" "in_range 0xC2 0xDF b"
    | "\<not> b < 0x80" "\<not> in_range 0xC2 0xDF b" "in_range 0xE0 0xEF b"
    | "\<not> b < 0x80" "\<not> in_range 0xC2 0xDF b" "\<not> in_range 0xE0 0xEF b" "in_range 0xF0 0xF4 b"
    | "\<not> b < 0x80" "\<not> in_range 0xC2 0xDF b" "\<not> in_range 0xE0 0xEF b" "\<not> in_range 0xF0 0xF4 b"
    by blast
  then show ?thesis
  proof cases
    case 1
    with assms Cons show ?thesis
      by (auto simp: utf8_step.simps is_surrogate_def word_less_nat_alt)
  next
    case 2
    with assms Cons show ?thesis
      by (auto simp: utf8_step.simps is_surrogate_def in_range_def word_le_nat_alt
               split: list.splits if_splits)
  next
    case 3
    from 3 assms Cons show ?thesis
      by (auto simp: utf8_step.simps is_surrogate_def in_range_def word_le_nat_alt
               second_lo_def second_hi_def byte_eq_unat
               split: list.splits if_splits)
  next
    case 4
    with assms Cons show ?thesis
      by (auto simp: utf8_step.simps is_surrogate_def in_range_def word_le_nat_alt
               second_lo_def second_hi_def byte_eq_unat
               split: list.splits if_splits)
  next
    case 5
    with assms Cons show ?thesis by (simp add: utf8_step.simps)
  qed
qed


lemma py_decode_encodable: "py_decode Replace bs = Inr s \<Longrightarrow> encodable s"
proof (induction "Replace" bs arbitrary: s rule: py_decode.induct)
  case 1
  then show ?case by (simp add: encodable_def)
next
  case (2 b bs)
  obtain r n where st: "utf8_step (b # bs) = (r, n)" by (cases "utf8_step (b # bs)")
  obtain s' where s': "py_decode Replace (drop n (b # bs)) = Inr s'"
    using py_decode_replace_total by blast
  show ?case
  proof (cases r)
    case None
    from 2(1) [OF st [symmetric] None refl s'] have "encodable s'" .
    moreover from "2.prems" st None s' have "s = 0xFFFD # s'" by simp
    ultimately show ?thesis by (simp add: encodable_def is_surrogate_def)
  next
    case (Some c)
    from 2(2) [OF st [symmetric] Some s'] have "encodable s'" .
    moreover from "2.prems" st Some s' have "s = c # s'" by simp
    moreover from st Some have "\<not> is_surrogate c" by (auto dest: utf8_step_scalar)
    ultimately show ?thesis by (simp add: encodable_def)
  qed
qed

lemma recv_line_loop_encodable:
  "recv_line_loop cl buf inp = (Some line, inp') \<Longrightarrow> encodable line"
proof (induction cl buf inp rule: recv_line_loop.induct)
  case (1 cl buf inp)
  show ?case
  proof (cases "0x0A \<in> set buf")
    case True
    with "1.prems" show ?thesis
      by (subst (asm) recv_line_loop.simps)
         (auto split: sum.splits dest: py_decode_encodable)
  next
    case False
    obtain x inp1 where rc: "sock_recv cl inp = (x, inp1)" by (cases "sock_recv cl inp")
    from False rc "1.prems" obtain chunk where x: "x = Inr chunk" and ne: "chunk \<noteq> []"
      and rest: "recv_line_loop cl (buf @ chunk) inp1 = (Some line, inp')"
      by (subst (asm) recv_line_loop.simps) (cases x; auto split: if_splits)
    from "1.IH" [OF False rc [symmetric] x ne rest] show ?thesis .
  qed
qed

lemma recv_line_encodable: "recv_line cl inp = (Some line, inp') \<Longrightarrow> encodable line"
  unfolding recv_line_def by (rule recv_line_loop_encodable)

lemma encodable_subset: "encodable s \<Longrightarrow> set t \<subseteq> set s \<Longrightarrow> encodable t"
  by (auto simp: encodable_def)

lemma set_py_strip: "set (py_strip s) \<subseteq> set s"
  by (auto simp: py_strip_def dest!: set_dropWhileD)

lemma find_target_None_iff: "find_target cl t = None \<longleftrightarrow> t \<notin> snd ` set cl"
  by (induction cl t rule: find_target.induct) auto

lemma dropWhile_sep_hd:
  "sep \<in> set s \<Longrightarrow>
   dropWhile (\<lambda>c. c \<noteq> sep) s = sep # tl (dropWhile (\<lambda>c. c \<noteq> sep) s)"
  by (induction s) auto

lemma split_at_sep:
  "sep \<in> set s \<Longrightarrow>
   s = takeWhile (\<lambda>c. c \<noteq> sep) s @ sep # tl (dropWhile (\<lambda>c. c \<noteq> sep) s)"
  using takeWhile_dropWhile_id [of "\<lambda>c. c \<noteq> sep" s] dropWhile_sep_hd [of sep s] by simp

lemma takeWhile_no_sep: "sep \<notin> set (takeWhile (\<lambda>c. c \<noteq> sep) s)"
  by (auto dest: set_takeWhileD)

lemma whisper_text_shape:
  assumes "startswith text whisper_prefix"
  shows "text = [0x2F, 0x77, 0x20] @ drop 3 text"
proof -
  from assms have "take 3 text = [0x2F, 0x77, 0x20]"
    by (simp add: startswith_def whisper_prefix_def numeral_3_eq_3)
  then have "take 3 text @ drop 3 text = [0x2F, 0x77, 0x20] @ drop 3 text"
    by (rule arg_cong)
  then show ?thesis by (simp only: append_take_drop_id)
qed

lemma py_split_whisper:
  "py_split 0x20 2 ([0x2F, 0x77, 0x20] @ r) =
     (if (0x20 :: nat) \<in> set r
      then [[0x2F, 0x77], takeWhile (\<lambda>c. c \<noteq> 0x20) r, tl (dropWhile (\<lambda>c. c \<noteq> 0x20) r)]
      else [[0x2F, 0x77], r])"
  by (simp add: numeral_2_eq_2)

subsection \<open>Whisper\<close>

lemma whisper_not_quit: "startswith text whisper_prefix \<Longrightarrow> text \<noteq> quit_cmd \<and> text \<noteq> []"
  by (auto simp: startswith_def whisper_prefix_def quit_cmd_def)

lemma handle_line_whisper:
  assumes "startswith (py_strip line) whisper_prefix"
  shows
    "(py_split 0x20 2 (py_strip line) = [[0x2F, 0x77], drop 3 (py_strip line)] \<and>
      handle_line sock nickname line w =
        (case send_text sock usage_msg w of
           (Some e, w') \<Rightarrow> Raise e w'
         | (None, w') \<Rightarrow> Continue w')) \<or>
     (\<exists>target_name content.
        py_split 0x20 2 (py_strip line) = [[0x2F, 0x77], target_name, content] \<and>
        0x20 \<notin> set target_name \<and>
        py_strip line = [0x2F, 0x77, 0x20] @ target_name @ [0x20] @ content \<and>
        handle_line sock nickname line w =
          (case send_whisper nickname target_name content sock w of
             (Some e, w') \<Rightarrow> Raise e w'
           | (None, w') \<Rightarrow> Continue w'))"
proof -
  let ?text = "py_strip line"
  let ?r = "drop 3 ?text"
  have shape: "?text = [0x2F, 0x77, 0x20] @ ?r"
    using assms(1) by (rule whisper_text_shape)
  have nq: "?text \<noteq> quit_cmd" "?text \<noteq> []"
    using whisper_not_quit [OF assms(1)] by simp_all
  have split: "py_split 0x20 2 ?text =
     (if (0x20 :: nat) \<in> set ?r
      then [[0x2F, 0x77], takeWhile (\<lambda>c. c \<noteq> 0x20) ?r, tl (dropWhile (\<lambda>c. c \<noteq> 0x20) ?r)]
      else [[0x2F, 0x77], ?r])"
    using py_split_whisper [of ?r] shape by simp
  show ?thesis
  proof (cases "(0x20 :: nat) \<in> set ?r")
    case False
    with split have parts: "py_split 0x20 2 ?text = [[0x2F, 0x77], ?r]" by simp
    with nq assms have "handle_line sock nickname line w =
        (case send_text sock usage_msg w of
           (Some e, w') \<Rightarrow> Raise e w'
         | (None, w') \<Rightarrow> Continue w')"
      by (simp add: handle_line_def Let_def)
    with parts show ?thesis by blast
  next
    case True
    let ?t = "takeWhile (\<lambda>c. c \<noteq> 0x20) ?r"
    let ?c = "tl (dropWhile (\<lambda>c. c \<noteq> 0x20) ?r)"
    from True split have parts: "py_split 0x20 2 ?text = [[0x2F, 0x77], ?t, ?c]" by simp
    have t: "0x20 \<notin> set ?t" by (rule takeWhile_no_sep)
    from split_at_sep [OF True] shape
    have whole: "?text = [0x2F, 0x77, 0x20] @ ?t @ [0x20] @ ?c" by simp
    from parts nq assms(1)
    have "handle_line sock nickname line w =
          (case send_whisper nickname ?t ?c sock w of
             (Some e, w') \<Rightarrow> Raise e w'
           | (None, w') \<Rightarrow> Continue w')"
      by (simp add: handle_line_def Let_def)
    with parts t whole show ?thesis by blast
  qed
qed

text \<open>
  C6. A line whose stripped text starts with \<^verbatim>\<open>/w\<close> and a space is cut by
  \<^verbatim>\<open>split(' ', 2)\<close> into at most three fields. With three fields they are the
  command token, a target name without a space, and the content, which is everything
  after the second space, further spaces included; \<^verbatim>\<open>send_whisper\<close> is called with
  them. With fewer than three fields the sender (whose connection takes the write) is
  sent the usage line, nobody else is sent anything, and the loop goes on.
\<close>

theorem whisper_fields:
  assumes "startswith (py_strip line) whisper_prefix"
    and "sock \<notin> closed w" and "sock \<notin> broken w"
  shows
    "length (py_split 0x20 2 (py_strip line)) \<le> 3 \<and>
     (length (py_split 0x20 2 (py_strip line)) < 3 \<longrightarrow>
        handle_line sock nickname line w =
          Continue (w\<lparr>wire := wire w @ [(sock, py_encode_replace usage_msg)]\<rparr>)) \<and>
     (length (py_split 0x20 2 (py_strip line)) = 3 \<longrightarrow>
        (\<exists>target_name content.
           py_split 0x20 2 (py_strip line) = [[0x2F, 0x77], target_name, content] \<and>
           0x20 \<notin> set target_name \<and>
           py_strip line = [0x2F, 0x77, 0x20] @ target_name @ [0x20] @ content \<and>
           handle_line sock nickname line w =
             (case send_whisper nickname target_name content sock w of
                (Some e, w') \<Rightarrow> Raise e w'
              | (None, w') \<Rightarrow> Continue w')))"
  using handle_line_whisper [OF assms(1), of sock nickname w] assms(2,3)
  by (auto simp: send_text_encodable)

theorem whisper_fields_witness:
  "startswith (py_strip [0x2F, 0x77, 0x20, 0x62]) whisper_prefix \<and>
   length (py_split 0x20 2 (py_strip [0x2F, 0x77, 0x20, 0x62])) < 3 \<and>
   handle_line 1 [0x61] [0x2F, 0x77, 0x20, 0x62]
     \<lparr>clients = [(1, [0x61])], closed = {}, broken = {}, wire = []\<rparr> =
   Continue \<lparr>clients = [(1, [0x61])], closed = {}, broken = {},
             wire = [(1, py_encode_replace usage_msg)]\<rparr>"
proof -
  have st: "py_strip [0x2F, 0x77, 0x20, 0x62] = [0x2F, 0x77, 0x20, 0x62]"
    by (simp add: py_strip_def py_isspace_def)
  have sw: "startswith (py_strip [0x2F, 0x77, 0x20, 0x62]) whisper_prefix"
    by (simp add: st startswith_def whisper_prefix_def)
  have len: "length (py_split 0x20 2 (py_strip [0x2F, 0x77, 0x20, 0x62])) < 3"
    by (simp add: st numeral_2_eq_2)
  from whisper_fields [OF sw, of 1 "\<lparr>clients = [(1, [0x61])], closed = {}, broken = {}, wire = []\<rparr>"
      "[0x61]"] sw len
  show ?thesis by simp
qed

lemma send_whisper_not_found:
  assumes "target_name \<notin> snd ` set (clients w)" and "encodable target_name"
    and "sender_sock \<notin> closed w" and "sender_sock \<notin> broken w"
  shows "send_whisper sender target_name content sender_sock w =
     (None, w\<lparr>wire := wire w @ [(sender_sock, py_encode_replace (notfound_msg target_name))]\<rparr>)"
proof -
  from assms(1) have "find_target (clients w) target_name = None"
    by (simp add: find_target_None_iff)
  moreover from assms(2) have "encodable (notfound_msg target_name)"
    by (auto simp: notfound_msg_def encodable_def is_surrogate_def)
  ultimately show ?thesis using assms(3,4)
    by (simp add: send_whisper_def send_text_encodable)
qed

text \<open>
  C7. A whisper line, as \<^verbatim>\<open>recv_line\<close> returned it, whose target name is the nickname
  of no entry of the dictionary: the requester (whose connection takes the write) is
  sent the one line saying so. Nothing else is delivered, the dictionary is as before,
  no socket is closed, and the loop goes on.
\<close>

theorem whisper_target_not_found:
  assumes "recv_line cl inp = (Some line, inp')"
    and "startswith (py_strip line) whisper_prefix"
    and "py_split 0x20 2 (py_strip line) = [cmd, target_name, content]"
    and "target_name \<notin> snd ` set (clients w)"
    and "sock \<notin> closed w" and "sock \<notin> broken w"
  shows "handle_line sock nickname line w =
     Continue (w\<lparr>wire := wire w @ [(sock, py_encode_replace (notfound_msg target_name))]\<rparr>)"
proof -
  from assms(1) have "encodable line" by (rule recv_line_encodable)
  then have enc: "encodable (py_strip line)"
    using set_py_strip by (rule encodable_subset)
  from handle_line_whisper [OF assms(2), of sock nickname w] assms(3)
  have whole: "py_strip line = [0x2F, 0x77, 0x20] @ target_name @ [0x20] @ content"
    and hl: "handle_line sock nickname line w =
             (case send_whisper nickname target_name content sock w of
                (Some e, w') \<Rightarrow> Raise e w'
              | (None, w') \<Rightarrow> Continue w')"
    by auto
  from enc whole have "encodable target_name"
    by (metis encodable_append)
  from send_whisper_not_found [OF assms(4) this assms(5,6)] hl show ?thesis by simp
qed

theorem whisper_target_not_found_witness:
  "recv_line False [Chunk [0x2F, 0x77, 0x20, 0x7A, 0x20, 0x68, 0x0A]]
     = (Some [0x2F, 0x77, 0x20, 0x7A, 0x20, 0x68], []) \<and>
   startswith (py_strip [0x2F, 0x77, 0x20, 0x7A, 0x20, 0x68]) whisper_prefix \<and>
   py_split 0x20 2 (py_strip [0x2F, 0x77, 0x20, 0x7A, 0x20, 0x68])
     = [[0x2F, 0x77], [0x7A], [0x68]] \<and>
   [0x7A] \<notin> snd ` set (clients \<lparr>clients = [(1, [0x61])], closed = {}, broken = {}, wire = []\<rparr>) \<and>
   handle_line 1 [0x61] [0x2F, 0x77, 0x20, 0x7A, 0x20, 0x68] \<lparr>clients = [(1, [0x61])], closed = {}, broken = {}, wire = []\<rparr> =
   Continue \<lparr>clients = [(1, [0x61])], closed = {}, broken = {},
             wire = [(1, py_encode_replace (notfound_msg [0x7A]))]\<rparr>"
proof -
  have rl: "recv_line False [Chunk [0x2F, 0x77, 0x20, 0x7A, 0x20, 0x68, 0x0A]]
     = (Some [0x2F, 0x77, 0x20, 0x7A, 0x20, 0x68], [])"
    by (simp add: recv_line_def recv_line_loop.simps utf8_step.simps)
  have st: "py_strip [0x2F, 0x77, 0x20, 0x7A, 0x20, 0x68] = [0x2F, 0x77, 0x20, 0x7A, 0x20, 0x68]"
    by (simp add: py_strip_def py_isspace_def)
  have sw: "startswith (py_strip [0x2F, 0x77, 0x20, 0x7A, 0x20, 0x68]) whisper_prefix"
    by (simp add: st startswith_def whisper_prefix_def)
  have sp: "py_split 0x20 2 (py_strip [0x2F, 0x77, 0x20, 0x7A, 0x20, 0x68])
     = [[0x2F, 0x77], [0x7A], [0x68]]"
    by (simp add: st numeral_2_eq_2)
  have nt: "[0x7A] \<notin> snd ` set (clients \<lparr>clients = [(1, [0x61])], closed = {}, broken = {}, wire = []\<rparr>)"
    by simp
  from whisper_target_not_found [OF rl sw sp nt, of 1 "[0x61]"] rl sw sp nt
  show ?thesis by simp
qed

text \<open>
  C10. The scan for the target looks at every entry of the dictionary; the requester's
  own entry is not left out. When the first entry with the target name is the
  requester's own socket, both the whisper line and the confirmation line are
  delivered to that socket, in this order.
\<close>

theorem self_whisper:
  assumes "find_target (clients w) target_name = Some sender_sock"
    and "encodable sender" and "encodable target_name" and "encodable content"
    and "sender_sock \<notin> closed w" and "sender_sock \<notin> broken w"
  shows "send_whisper sender target_name content sender_sock w =
     (None, w\<lparr>wire := wire w @
        [(sender_sock, py_encode_replace (whisper_msg sender content @ [0x0A])),
         (sender_sock, py_encode_replace (whisper_sent_msg target_name content @ [0x0A]))]\<rparr>)"
proof -
  have e1: "encodable (whisper_msg sender content @ [0x0A])"
    using assms(2,4) by (auto simp: whisper_msg_def encodable_def is_surrogate_def)
  have e2: "encodable (whisper_sent_msg target_name content @ [0x0A])"
    using assms(3,4) by (auto simp: whisper_sent_msg_def encodable_def is_surrogate_def)
  show ?thesis using assms(1,5,6)
    by (simp add: send_whisper_def try_send_def py_encode_encodable [OF e1]
        py_encode_encodable [OF e2] sendall_def)
qed

theorem self_whisper_witness:
  "find_target (clients \<lparr>clients = [(1, [0x61])], closed = {}, broken = {}, wire = []\<rparr>) [0x61] = Some 1 \<and>
   encodable [0x61] \<and> encodable [0x68] \<and>
   send_whisper [0x61] [0x61] [0x68] 1 \<lparr>clients = [(1, [0x61])], closed = {}, broken = {}, wire = []\<rparr> =
   (None, \<lparr>clients = [(1, [0x61])], closed = {}, broken = {},
           wire = [(1, py_encode_replace (whisper_msg [0x61] [0x68] @ [0x0A])),
                   (1, py_encode_replace (whisper_sent_msg [0x61] [0x68] @ [0x0A]))]\<rparr>)"
proof -
  have ft: "find_target (clients \<lparr>clients = [(1, [0x61])], closed = {}, broken = {}, wire = []\<rparr>) [0x61] = Some 1"
    by simp
  have e1: "encodable [0x61]" and e2: "encodable [0x68]"
    by (simp_all add: encodable_def is_surrogate_def)
  from self_whisper [OF ft e1 e1 e2] ft e1 e2
  show ?thesis by simp
qed

subsection \<open>Broadcast\<close>

lemma sendall_writable:
  "sendall s d w = (if writable w s then Inr (w\<lparr>wire := wire w @ [(s, d)]\<rparr>) else Inl OSError)"
  by (simp add: sendall_def writable_def)

lemma extends_unwritable: "extends w w' \<Longrightarrow> \<not> writable w g \<Longrightarrow> \<not> writable w' g"
  by (auto simp: extends_def writable_def)

lemma delivered_trans:
  assumes "extends w w1" and "extends w1 w2"
  shows "set (delivered w w2) = set (delivered w w1) \<union> set (delivered w1 w2)"
proof -
  from assms obtain ys zs where "wire w1 = wire w @ ys" "wire w2 = wire w1 @ zs"
    by (auto simp: extends_def)
  then show ?thesis by (simp add: delivered_def)
qed

lemma delivered_same_wire: "wire w1 = wire w \<Longrightarrow> delivered w1 w' = delivered w w'"
  by (simp add: delivered_def)

lemma keeps_refl: "keeps X w w"
  by (simp add: keeps_def)

lemma keeps_trans: "keeps X w w1 \<Longrightarrow> keeps X w1 w2 \<Longrightarrow> keeps X w w2"
  by (simp add: keeps_def)

lemma keeps_mono: "keeps {} w w' \<Longrightarrow> keeps X w w'"
  by (simp add: keeps_def)

lemma broadcast_keeps:
  "keeps {} w (broadcast t e w)"
  "keeps {} w (broadcast_loop d ts w)"
  "keeps {s} w (remove_client s w)"
proof (induction t e w and d ts w and s w rule: broadcast_broadcast_loop_remove_client.induct)
  case (1 t exclude w)
  then show ?case by (simp add: broadcast.simps)
next
  case (2 data w)
  show ?case by (simp add: keeps_refl)
next
  case (3 data s targets w)
  show ?case
  proof (cases "writable w s")
    case True
    let ?w1 = "w\<lparr>wire := wire w @ [(s, data)]\<rparr>"
    have "keeps {} w ?w1" by (simp add: keeps_def writable_def)
    with True 3(3) [of ?w1] show ?thesis
      by (auto simp: sendall_writable intro: keeps_trans)
  next
    case False
    then have snd: "sendall s data w = Inl OSError" by (simp add: sendall_writable)
    from False 3(1) [OF snd] have "keeps {} w (remove_client s w)"
      by (auto simp: keeps_def)
    with 3(2) [OF snd] snd show ?thesis by (auto intro: keeps_trans)
  qed
next
  case (4 sock w)
  obtain n w1 where pop: "clients_pop sock w = (n, w1)" by (cases "clients_pop sock w")
  have k: "keeps {sock} w (sock_close sock w1)"
    using pop by (auto simp: keeps_def clients_pop_def sock_close_def writable_def)
  show ?case
  proof (cases "truthy n")
    case True
    from 4 [OF pop [symmetric] refl True]
    have "keeps {sock} (sock_close sock w1) 
            (broadcast (departure_msg (the n)) None (sock_close sock w1))"
      by (rule keeps_mono)
    with k pop True show ?thesis
      by (auto simp: remove_client.simps Let_def intro: keeps_trans)
  next
    case False
    with pop k show ?thesis by (simp add: remove_client.simps Let_def)
  qed
qed

lemma broadcast_loop_delivers:
  "g \<in> set ts \<Longrightarrow> writable w g \<Longrightarrow> (g, d) \<in> set (delivered w (broadcast_loop d ts w))"
proof (induction ts arbitrary: w)
  case Nil
  then show ?case by simp
next
  case (Cons s ts)
  show ?case
  proof (cases "writable w s")
    case True
    let ?w1 = "w\<lparr>wire := wire w @ [(s, d)]\<rparr>"
    have e1: "extends w ?w1" by (simp add: extends_def)
    have e2: "extends ?w1 (broadcast_loop d ts ?w1)" by (rule broadcast_extends)
    have eq: "broadcast_loop d (s # ts) w = broadcast_loop d ts ?w1"
      using True by (simp add: sendall_writable)
    have here: "(s, d) \<in> set (delivered w ?w1)" by (simp add: delivered_def)
    show ?thesis
    proof (cases "g = s")
      case True
      with here show ?thesis unfolding eq delivered_trans [OF e1 e2] by simp
    next
      case False
      with Cons.prems have "g \<in> set ts" "writable ?w1 g" by (simp_all add: writable_def)
      from Cons.IH [OF this] show ?thesis unfolding eq delivered_trans [OF e1 e2] by simp
    qed
  next
    case False
    let ?w1 = "remove_client s w"
    have e1: "extends w ?w1" by (rule broadcast_extends)
    have e2: "extends ?w1 (broadcast_loop d ts ?w1)" by (rule broadcast_extends)
    have eq: "broadcast_loop d (s # ts) w = broadcast_loop d ts ?w1"
      using False by (simp add: sendall_writable)
    from False Cons.prems have ne: "g \<noteq> s" by auto
    with Cons.prems broadcast_keeps(3) [of s w] have "g \<in> set ts" "writable ?w1 g"
      by (simp_all add: keeps_def)
    from Cons.IH [OF this] show ?thesis unfolding eq delivered_trans [OF e1 e2] by simp
  qed
qed

lemma broadcast_delivers:
  assumes "g \<in> fst ` set (clients w)" and "Some g \<noteq> exclude" and "writable w g"
  shows "(g, py_encode_replace (t @ [0x0A])) \<in> set (delivered w (broadcast t exclude w))"
  using assms by (simp add: broadcast.simps broadcast_loop_delivers)

lemma broadcast_loop_removes:
  "g \<in> set ts \<Longrightarrow> \<not> writable w g \<Longrightarrow>
   g \<notin> fst ` set (clients (broadcast_loop d ts w)) \<and> g \<in> closed (broadcast_loop d ts w)"
proof (induction ts arbitrary: w)
  case Nil
  then show ?case by simp
next
  case (Cons s ts)
  show ?case
  proof (cases "writable w s")
    case True
    let ?w1 = "w\<lparr>wire := wire w @ [(s, d)]\<rparr>"
    have eq: "broadcast_loop d (s # ts) w = broadcast_loop d ts ?w1"
      using True by (simp add: sendall_writable)
    from True Cons.prems have "g \<in> set ts" "\<not> writable ?w1 g" by (auto simp: writable_def)
    from Cons.IH [OF this] show ?thesis unfolding eq .
  next
    case False
    let ?w1 = "remove_client s w"
    have e1: "extends w ?w1" by (rule broadcast_extends)
    have e2: "extends ?w1 (broadcast_loop d ts ?w1)" by (rule broadcast_extends)
    have eq: "broadcast_loop d (s # ts) w = broadcast_loop d ts ?w1"
      using False by (simp add: sendall_writable)
    show ?thesis
    proof (cases "g = s")
      case True
      with remove_client_gone [of s w] e2 show ?thesis unfolding eq
        by (blast intro: extends_closed dest: extends_keys)
    next
      case ne: False
      with Cons.prems extends_unwritable [OF e1] have "g \<in> set ts" "\<not> writable ?w1 g"
        by auto
      from Cons.IH [OF this] show ?thesis unfolding eq .
    qed
  qed
qed

lemma broadcast_removes:
  assumes "g \<in> fst ` set (clients w)" and "Some g \<noteq> exclude" and "\<not> writable w g"
  shows "g \<notin> fst ` set (clients (broadcast t exclude w)) \<and> g \<in> closed (broadcast t exclude w)"
  using assms by (simp add: broadcast.simps broadcast_loop_removes)

lemma keys_delete: "fst ` set (AList.delete k al) = fst ` set al - {k}"
  by (induction al) auto

lemma in_keys_iff: "g \<in> fst ` set al \<longleftrightarrow> map_of al g \<noteq> None"
  by (simp add: map_of_eq_None_iff)

lemma announces_send:
  assumes "announces {} (w\<lparr>wire := wire w @ [p]\<rparr>) w'" and "extends (w\<lparr>wire := wire w @ [p]\<rparr>) w'"
  shows "announces {} w w'"
proof -
  let ?w1 = "w\<lparr>wire := wire w @ [p]\<rparr>"
  have e1: "extends w ?w1" by (simp add: extends_def)
  have sub: "set (delivered ?w1 w') \<subseteq> set (delivered w w')"
    using delivered_trans [OF e1 assms(2)] by simp
  show ?thesis
    unfolding announces_def
  proof (intro allI impI, elim conjE)
    fix x n g
    assume "map_of (clients w) x = Some n" "n \<noteq> []" "x \<notin> fst ` set (clients w')"
      "writable w g" "g \<in> fst ` set (clients w)" "g \<notin> {}" "g \<noteq> x"
    with assms(1) have "(g, py_encode_replace (departure_msg n @ [0x0A])) \<in> set (delivered ?w1 w')"
      unfolding announces_def by (simp add: writable_def)
    with sub show "(g, py_encode_replace (departure_msg n @ [0x0A])) \<in> set (delivered w w')"
      by blast
  qed
qed

lemma announces_cascade:
  assumes s: "\<not> writable w s"
    and a1: "announces {s} w w1" and a2: "announces {} w1 w'"
    and e1: "extends w w1" and e2: "extends w1 w'" and k: "keeps {s} w w1"
  shows "announces {} w w'"
  unfolding announces_def
proof (intro allI impI, elim conjE)
  fix x n g
  assume x: "map_of (clients w) x = Some n" "n \<noteq> []" "x \<notin> fst ` set (clients w')"
    and g: "writable w g" "g \<in> fst ` set (clients w)" "g \<noteq> x"
  from s g(1) have gs: "g \<noteq> s" by auto
  have d: "set (delivered w w') = set (delivered w w1) \<union> set (delivered w1 w')"
    by (rule delivered_trans [OF e1 e2])
  show "(g, py_encode_replace (departure_msg n @ [0x0A])) \<in> set (delivered w w')"
  proof (cases "x \<in> fst ` set (clients w1)")
    case False
    with a1 x g gs have "(g, py_encode_replace (departure_msg n @ [0x0A])) \<in> set (delivered w w1)"
      unfolding announces_def by blast
    with d show ?thesis by simp
  next
    case True
    then have "map_of (clients w1) x \<noteq> None" by (simp add: in_keys_iff)
    with e1 x(1) have x1: "map_of (clients w1) x = Some n"
      unfolding extends_def by metis
    from k g gs have g1: "writable w1 g" "map_of (clients w1) g = map_of (clients w) g"
      by (simp_all add: keeps_def)
    with g(2) have "g \<in> fst ` set (clients w1)" by (simp add: in_keys_iff)
    with a2 x1 x(2,3) g1(1) g(3)
    have "(g, py_encode_replace (departure_msg n @ [0x0A])) \<in> set (delivered w1 w')"
      unfolding announces_def by blast
    with d show ?thesis by simp
  qed
qed

lemma announces_pop:
  assumes pop: "clients_pop s w = (n0, w1)" and t: "truthy n0"
    and a: "announces {} (sock_close s w1) (broadcast (departure_msg (the n0)) None (sock_close s w1))"
  shows "announces {s} w (broadcast (departure_msg (the n0)) None (sock_close s w1))"
  unfolding announces_def
proof (intro allI impI, elim conjE)
  let ?w2 = "sock_close s w1"
  let ?w' = "broadcast (departure_msg (the n0)) None ?w2"
  fix x n g
  assume x: "map_of (clients w) x = Some n" "n \<noteq> []" "x \<notin> fst ` set (clients ?w')"
    and g: "writable w g" "g \<in> fst ` set (clients w)" "g \<notin> {s}" "g \<noteq> x"
  from pop have w2: "clients ?w2 = AList.delete s (clients w)" "wire ?w2 = wire w"
    "closed ?w2 = insert s (closed w)" "broken ?w2 = broken w" "n0 = map_of (clients w) s"
    by (auto simp: clients_pop_def sock_close_def)
  from g w2 have g2: "writable ?w2 g" "g \<in> fst ` set (clients ?w2)"
    by (auto simp: writable_def keys_delete)
  have dl: "delivered ?w2 ?w' = delivered w ?w'"
    using w2(2) by (rule delivered_same_wire)
  show "(g, py_encode_replace (departure_msg n @ [0x0A])) \<in> set (delivered w ?w')"
  proof (cases "x = s")
    case True
    with x(1) w2(5) have "the n0 = n" by simp
    with broadcast_delivers [OF g2(2) _ g2(1), of None "departure_msg (the n0)"] dl
    show ?thesis by simp
  next
    case False
    with x(1) w2(1) have "map_of (clients ?w2) x = Some n" by simp
    with a x(2,3) g2 g(4)
    have "(g, py_encode_replace (departure_msg n @ [0x0A])) \<in> set (delivered ?w2 ?w')"
      unfolding announces_def by blast
    with dl show ?thesis by simp
  qed
qed

lemma announces_pop_quiet:
  assumes pop: "clients_pop s w = (n0, w1)" and t: "\<not> truthy n0"
  shows "announces {s} w (sock_close s w1)"
  unfolding announces_def
proof (intro allI impI, elim conjE)
  fix x n g
  assume x: "map_of (clients w) x = Some n" "n \<noteq> []" "x \<notin> fst ` set (clients (sock_close s w1))"
  from pop have w2: "clients (sock_close s w1) = AList.delete s (clients w)"
    "n0 = map_of (clients w) s"
    by (auto simp: clients_pop_def sock_close_def)
  from x(1) have "x \<in> fst ` set (clients w)" by (simp add: in_keys_iff)
  with x(3) w2(1) have "x = s" by (simp add: keys_delete)
  with x(1,2) w2(2) t have False by (simp add: truthy_def)
  then show "(g, py_encode_replace (departure_msg n @ [0x0A]))
               \<in> set (delivered w (sock_close s w1))" ..
qed

lemma broadcast_announces:
  "announces {} w (broadcast t e w)"
  "announces {} w (broadcast_loop d ts w)"
  "announces {s} w (remove_client s w)"
proof (induction t e w and d ts w and s w rule: broadcast_broadcast_loop_remove_client.induct)
  case (1 t exclude w)
  then show ?case by (simp add: broadcast.simps)
next
  case (2 data w)
  show ?case by (auto simp: announces_def in_keys_iff)
next
  case (3 data s targets w)
  show ?case
  proof (cases "writable w s")
    case True
    let ?w1 = "w\<lparr>wire := wire w @ [(s, data)]\<rparr>"
    from True have snd: "sendall s data w = Inr ?w1" by (simp add: sendall_writable)
    from 3(3) [OF snd] have "announces {} ?w1 (broadcast_loop data targets ?w1)" .
    moreover have "extends ?w1 (broadcast_loop data targets ?w1)" by (rule broadcast_extends)
    ultimately have "announces {} w (broadcast_loop data targets ?w1)" by (rule announces_send)
    with snd show ?thesis by simp
  next
    case False
    then have snd: "sendall s data w = Inl OSError" by (simp add: sendall_writable)
    let ?w1 = "remove_client s w"
    have "announces {} w (broadcast_loop data targets ?w1)"
      using False 3(1) [OF snd] 3(2) [OF snd] broadcast_extends(3) broadcast_extends(2)
        broadcast_keeps(3)
      by (rule announces_cascade)
    with snd show ?thesis by simp
  qed
next
  case (4 sock w)
  obtain n0 w1 where pop: "clients_pop sock w = (n0, w1)" by (cases "clients_pop sock w")
  show ?case
  proof (cases "truthy n0")
    case True
    from announces_pop [OF pop True 4 [OF pop [symmetric] refl True]] pop True
    show ?thesis by (simp add: remove_client.simps Let_def)
  next
    case False
    from announces_pop_quiet [OF pop False] pop False
    show ?thesis by (simp add: remove_client.simps Let_def)
  qed
qed

text \<open>
  C9. In the model a send to a target fails exactly when the target does not take
  writes, at the start of the broadcast as well as when its turn comes: a socket that
  takes writes is never closed by a broadcast. For every target \<open>x\<close> of a broadcast
  to which the send fails: \<open>x\<close> is out of the dictionary and closed afterwards; if
  it had a nickname, its departure line was delivered to every registered socket that
  takes writes, each of which is still registered; and the line being broadcast was
  delivered to every target that takes writes.
\<close>

theorem broadcast_cascading_cleanup:
  assumes "x \<in> fst ` set (clients w)" and "Some x \<noteq> exclude" and "\<not> writable w x"
  shows "x \<notin> fst ` set (clients (broadcast t exclude w)) \<and>
     x \<in> closed (broadcast t exclude w) \<and>
     (\<forall>n g. map_of (clients w) x = Some n \<and> n \<noteq> [] \<and>
            g \<in> fst ` set (clients w) \<and> writable w g \<longrightarrow>
            g \<in> fst ` set (clients (broadcast t exclude w)) \<and>
            (g, py_encode_replace (departure_msg n @ [0x0A]))
              \<in> set (delivered w (broadcast t exclude w))) \<and>
     (\<forall>g. g \<in> fst ` set (clients w) \<and> Some g \<noteq> exclude \<and> writable w g \<longrightarrow>
          (g, py_encode_replace (t @ [0x0A])) \<in> set (delivered w (broadcast t exclude w)))"
proof -
  let ?w' = "broadcast t exclude w"
  have gone: "x \<notin> fst ` set (clients ?w') \<and> x \<in> closed ?w'"
    using assms by (rule broadcast_removes)
  have dep: "g \<in> fst ` set (clients ?w') \<and>
             (g, py_encode_replace (departure_msg n @ [0x0A])) \<in> set (delivered w ?w')"
    if "map_of (clients w) x = Some n" "n \<noteq> []" "g \<in> fst ` set (clients w)" "writable w g"
    for n g
  proof -
    from that(4) assms(3) have ne: "g \<noteq> x" by auto
    from broadcast_keeps(1) [of w t exclude] that(3,4)
    have "g \<in> fst ` set (clients ?w')" by (simp add: keeps_def in_keys_iff)
    moreover from broadcast_announces(1) [of w t exclude] that gone ne
    have "(g, py_encode_replace (departure_msg n @ [0x0A])) \<in> set (delivered w ?w')"
      unfolding announces_def by blast
    ultimately show ?thesis ..
  qed
  have rest: "(g, py_encode_replace (t @ [0x0A])) \<in> set (delivered w ?w')"
    if "g \<in> fst ` set (clients w)" "Some g \<noteq> exclude" "writable w g" for g
    using that by (rule broadcast_delivers)
  from gone dep rest show ?thesis by blast
qed

theorem broadcast_cascading_cleanup_witness:
  "2 \<in> fst ` set (clients \<lparr>clients = [(1, [0x61]), (2, [0x62]), (3, [0x63])],
                             closed = {}, broken = {2}, wire = []\<rparr>) \<and>
   \<not> writable \<lparr>clients = [(1, [0x61]), (2, [0x62]), (3, [0x63])],
                closed = {}, broken = {2}, wire = []\<rparr> 2 \<and>
   2 \<notin> fst ` set (clients (broadcast [0x68] None
          \<lparr>clients = [(1, [0x61]), (2, [0x62]), (3, [0x63])],
           closed = {}, broken = {2}, wire = []\<rparr>)) \<and>
   2 \<in> closed (broadcast [0x68] None
          \<lparr>clients = [(1, [0x61]), (2, [0x62]), (3, [0x63])],
           closed = {}, broken = {2}, wire = []\<rparr>) \<and>
   (1, py_encode_replace (departure_msg [0x62] @ [0x0A]))
     \<in> set (delivered \<lparr>clients = [(1, [0x61]), (2, [0x62]), (3, [0x63])],
                        closed = {}, broken = {2}, wire = []\<rparr>
               (broadcast [0x68] None
                 \<lparr>clients = [(1, [0x61]), (2, [0x62]), (3, [0x63])],
                  closed = {}, broken = {2}, wire = []\<rparr>)) \<and>
   (3, py_encode_replace ([0x68] @ [0x0A]))
     \<in> set (delivered \<lparr>clients = [(1, [0x61]), (2, [0x62]), (3, [0x63])],
                        closed = {}, broken = {2}, wire = []\<rparr>
               (broadcast [0x68] None
                 \<lparr>clients = [(1, [0x61]), (2, [0x62]), (3, [0x63])],
                  closed = {}, broken = {2}, wire = []\<rparr>))"
proof -
  let ?W = "\<lparr>clients = [(1, [0x61]), (2, [0x62]), (3, [0x63 :: nat])],
            closed = {}, broken = {2 :: nat}, wire = []\<rparr>"
  have h1: "2 \<in> fst ` set (clients ?W)" by simp
  have h2: "Some (2 :: nat) \<noteq> None" by simp
  have h3: "\<not> writable ?W 2" by (simp add: writable_def)
  have n: "map_of (clients ?W) 2 = Some [0x62] \<and> [0x62 :: nat] \<noteq> []" by simp
  have g1: "1 \<in> fst ` set (clients ?W) \<and> writable ?W 1" by (simp add: writable_def)
  have g3: "3 \<in> fst ` set (clients ?W) \<and> Some (3 :: nat) \<noteq> None \<and> writable ?W 3"
    by (simp add: writable_def)
  from broadcast_cascading_cleanup [OF h1 h2 h3, of "[0x68]"] h1 h3 n g1 g3
  show ?thesis by blast
qed

subsection \<open>Chat lines and the join line\<close>

text \<open>
  C1, as the code has it. A line that is not empty, not the quit word and not a whisper
  is broadcast as nickname, \<^verbatim>\<open>> \<close> and the stripped text, with no socket excluded:
  it is delivered to every registered socket that takes writes, the sender's own
  socket among them.
\<close>

theorem chat_line_to_all:
  assumes "py_strip line \<noteq> []" and "py_strip line \<noteq> quit_cmd"
    and "\<not> startswith (py_strip line) whisper_prefix"
  shows "handle_line sock nickname line w =
           Continue (broadcast (chat_msg nickname (py_strip line)) None w) \<and>
         (\<forall>g. g \<in> fst ` set (clients w) \<and> writable w g \<longrightarrow>
              (g, py_encode_replace (chat_msg nickname (py_strip line) @ [0x0A]))
                \<in> set (delivered w (broadcast (chat_msg nickname (py_strip line)) None w))) \<and>
         (sock \<in> fst ` set (clients w) \<and> writable w sock \<longrightarrow>
              (sock, py_encode_replace (chat_msg nickname (py_strip line) @ [0x0A]))
                \<in> set (delivered w (broadcast (chat_msg nickname (py_strip line)) None w)))"
proof -
  have "handle_line sock nickname line w =
           Continue (broadcast (chat_msg nickname (py_strip line)) None w)"
    using assms by (simp add: handle_line_def Let_def)
  moreover have "(g, py_encode_replace (chat_msg nickname (py_strip line) @ [0x0A]))
                \<in> set (delivered w (broadcast (chat_msg nickname (py_strip line)) None w))"
    if "g \<in> fst ` set (clients w)" "writable w g" for g
    using that(1) _ that(2) by (rule broadcast_delivers) simp
  ultimately show ?thesis by blast
qed

theorem chat_line_to_all_witness:
  "py_strip [0x68, 0x69] \<noteq> [] \<and> py_strip [0x68, 0x69] \<noteq> quit_cmd \<and>
   \<not> startswith (py_strip [0x68, 0x69]) whisper_prefix \<and>
   1 \<in> fst ` set (clients \<lparr>clients = [(1, [0x61]), (2, [0x62])],
                             closed = {}, broken = {}, wire = []\<rparr>) \<and>
   writable \<lparr>clients = [(1, [0x61]), (2, [0x62])], closed = {}, broken = {}, wire = []\<rparr> 1 \<and>
   (1, py_encode_replace (chat_msg [0x61] (py_strip [0x68, 0x69]) @ [0x0A]))
     \<in> set (delivered \<lparr>clients = [(1, [0x61]), (2, [0x62])],
                        closed = {}, broken = {}, wire = []\<rparr>
              (broadcast (chat_msg [0x61] (py_strip [0x68, 0x69])) None
                 \<lparr>clients = [(1, [0x61]), (2, [0x62])],
                  closed = {}, broken = {}, wire = []\<rparr>))"
proof -
  let ?W = "\<lparr>clients = [(1, [0x61]), (2, [0x62 :: nat])],
            closed = {}, broken = {} :: nat set, wire = []\<rparr>"
  have st: "py_strip [0x68, 0x69] = [0x68, 0x69]" by (simp add: py_strip_def py_isspace_def)
  have h1: "py_strip [0x68, 0x69] \<noteq> []" by (simp add: st)
  have h2: "py_strip [0x68, 0x69] \<noteq> quit_cmd" by (simp add: st quit_cmd_def)
  have h3: "\<not> startswith (py_strip [0x68, 0x69]) whisper_prefix"
    by (simp add: st startswith_def whisper_prefix_def)
  have g: "1 \<in> fst ` set (clients ?W) \<and> writable ?W 1" by (simp add: writable_def)
  from chat_line_to_all [OF h1 h2 h3, of 1 "[0x61]" ?W] h1 h2 h3 g
  show ?thesis by blast
qed

text \<open>
  C1 as stated fails: with three registered connections, the line \<^verbatim>\<open>hi\<close> of the
  first is delivered to all three, the first included.
\<close>

theorem chat_line_echo_counterexample:
  "handle_line 1 [0x61] [0x68, 0x69]
     \<lparr>clients = [(1, [0x61]), (2, [0x62]), (3, [0x63])], closed = {}, broken = {}, wire = []\<rparr>
   = Continue
     \<lparr>clients = [(1, [0x61]), (2, [0x62]), (3, [0x63])], closed = {}, broken = {},
      wire = [(1, [0x61, 0x3E, 0x20, 0x68, 0x69, 0x0A]),
              (2, [0x61, 0x3E, 0x20, 0x68, 0x69, 0x0A]),
              (3, [0x61, 0x3E, 0x20, 0x68, 0x69, 0x0A])]\<rparr>"
  by (simp add: handle_line_def py_strip_def py_isspace_def quit_cmd_def startswith_def
      whisper_prefix_def chat_msg_def broadcast.simps sendall_def is_surrogate_def
      utf8_encode_cp_def)

lemma send_text_extends: "send_text s t w = (r, w') \<Longrightarrow> extends w w'"
  by (auto simp: send_text_def extends_refl split: sum.splits dest: sendall_extends)

lemma try_send_extends: "try_send s t w = (r, w') \<Longrightarrow> extends w w'"
  by (auto simp: try_send_def extends_refl split: sum.splits dest: sendall_extends)

lemma send_whisper_extends:
  assumes "send_whisper sender target_name content sender_sock w = (r, w')"
  shows "extends w w'"
proof (cases "find_target (clients w) target_name")
  case None
  with assms show ?thesis by (auto simp: send_whisper_def dest: send_text_extends)
next
  case (Some target_sock)
  obtain r1 w1 where t1: "try_send target_sock (whisper_msg sender content @ [0x0A]) w = (r1, w1)"
    by (cases "try_send target_sock (whisper_msg sender content @ [0x0A]) w")
  then have e1: "extends w w1" by (rule try_send_extends)
  show ?thesis
  proof (cases r1)
    case (Some e)
    with assms \<open>find_target (clients w) target_name = Some target_sock\<close> t1 e1
    show ?thesis by (simp add: send_whisper_def)
  next
    case None
    with assms \<open>find_target (clients w) target_name = Some target_sock\<close> t1
    have "try_send sender_sock (whisper_sent_msg target_name content @ [0x0A]) w1 = (r, w')"
      by (simp add: send_whisper_def)
    then have "extends w1 w'" by (rule try_send_extends)
    with e1 show ?thesis by (rule extends_trans)
  qed
qed

lemma handle_line_extends:
  "handle_line sock nickname line w = Continue w' \<Longrightarrow> extends w w'"
  "handle_line sock nickname line w = Break w' \<Longrightarrow> extends w w'"
  "handle_line sock nickname line w = Raise e w' \<Longrightarrow> extends w w'"
  by (auto simp: handle_line_def Let_def extends_refl broadcast_extends
           split: if_splits prod.splits option.splits list.splits
           dest: send_text_extends send_whisper_extends)

lemma session_loop_extends:
  "session_loop sock nickname inp w = (r, w') \<Longrightarrow> extends w w'"
proof (induction sock nickname inp w rule: session_loop.induct)
  case (1 sock nickname inp w)
  obtain l inp1 where rl: "recv_line (sock \<in> closed w) inp = (l, inp1)"
    by (cases "recv_line (sock \<in> closed w) inp")
  show ?case
  proof (cases l)
    case None
    with rl "1.prems" show ?thesis
      by (subst (asm) session_loop.simps) (simp add: extends_refl)
  next
    case (Some line)
    show ?thesis
    proof (cases "handle_line sock nickname line w")
      case (Continue w1)
      with rl Some "1.prems" have "session_loop sock nickname inp1 w1 = (r, w')"
        by (subst (asm) session_loop.simps) simp
      from "1.IH" [OF rl [symmetric] Some Continue this] handle_line_extends(1) [OF Continue]
      show ?thesis by (blast intro: extends_trans)
    next
      case (Break w1)
      with rl Some "1.prems" handle_line_extends(2) [OF Break] show ?thesis
        by (subst (asm) session_loop.simps) simp
    next
      case (Raise e w1)
      with rl Some "1.prems" handle_line_extends(3) [OF Raise] show ?thesis
        by (subst (asm) session_loop.simps) simp
    qed
  qed
qed


lemma delivered_later:
  assumes "wire w1 = wire w @ zs" and "extends w1 w'"
  shows "set (delivered w1 w') \<subseteq> set (delivered w w')"
proof -
  from assms(2) obtain ys where "wire w' = wire w1 @ ys" by (auto simp: extends_def)
  with assms(1) show ?thesis by (auto simp: delivered_def)
qed

text \<open>
  C2, as the code has it. A new connection that takes writes and whose first line
  strips to a non-empty nickname is registered, and the join line is broadcast with
  \<^verbatim>\<open>exclude=None\<close>: by the end of \<^verbatim>\<open>handle_client\<close> it was delivered to every socket
  that was registered and takes writes, and to the joining socket itself.
\<close>

theorem join_line_to_all:
  assumes "recv_line False inp = (Some line, inp1)" and "py_strip line \<noteq> []"
    and "sock \<notin> closed w" and "sock \<notin> broken w"
  shows "\<forall>g. (g = sock \<or> g \<in> fst ` set (clients w)) \<and> writable w g \<longrightarrow>
           (g, py_encode_replace (join_msg (py_strip line) @ [0x0A]))
             \<in> set (delivered w (snd (handle_client sock inp w)))"
proof (intro allI impI, elim conjE)
  fix g
  assume g: "g = sock \<or> g \<in> fst ` set (clients w)" "writable w g"
  let ?nick = "py_strip line"
  let ?w1 = "clients_set sock ?nick w"
  let ?w2 = "?w1\<lparr>wire := wire ?w1 @ [(sock, py_encode_replace welcome_msg)]\<rparr>"
  let ?wj = "broadcast (join_msg ?nick) None ?w2"
  obtain r wf where sl: "session_loop sock ?nick inp1 ?wj = (r, wf)"
    by (cases "session_loop sock ?nick inp1 ?wj")
  have st: "send_text sock welcome_msg ?w1 = (None, ?w2)"
    using assms(3,4) by (simp add: send_text_encodable clients_set_def)
  have body: "handle_client_body sock inp w = (r, wf)"
    using assms(1,2,3) st sl by (simp add: handle_client_body_def Let_def)
  then have hc: "snd (handle_client sock inp w) = remove_client sock wf"
    by (simp add: handle_client_def)
  have g2: "g \<in> fst ` set (clients ?w2)" "writable ?w2 g"
    using g by (auto simp: clients_set_def dom_update writable_def)
  have "(g, py_encode_replace (join_msg ?nick @ [0x0A])) \<in> set (delivered ?w2 ?wj)"
    using g2(1) _ g2(2) by (rule broadcast_delivers) simp
  moreover have e1: "extends ?w2 ?wj" by (rule broadcast_extends)
  moreover have e2: "extends ?wj (remove_client sock wf)"
    using session_loop_extends [OF sl] broadcast_extends(3) [of wf sock]
    by (rule extends_trans)
  ultimately have "(g, py_encode_replace (join_msg ?nick @ [0x0A]))
      \<in> set (delivered ?w2 (remove_client sock wf))"
    by (simp add: delivered_trans [OF e1 e2])
  moreover have "wire ?w2 = wire w @ [(sock, py_encode_replace welcome_msg)]"
    by (simp add: clients_set_def)
  moreover have "extends ?w2 (remove_client sock wf)" using e1 e2 by (rule extends_trans)
  ultimately show "(g, py_encode_replace (join_msg ?nick @ [0x0A]))
      \<in> set (delivered w (snd (handle_client sock inp w)))"
    unfolding hc using delivered_later by blast
qed

theorem join_line_to_all_witness:
  "recv_line False [Chunk [0x61, 0x6C, 0x0A]] = (Some [0x61, 0x6C], []) \<and>
   py_strip [0x61, 0x6C] \<noteq> [] \<and>
   writable \<lparr>clients = [(1, [0x62])], closed = {}, broken = {}, wire = []\<rparr> 2 \<and>
   (2, py_encode_replace (join_msg (py_strip [0x61, 0x6C]) @ [0x0A]))
     \<in> set (delivered \<lparr>clients = [(1, [0x62])], closed = {}, broken = {}, wire = []\<rparr>
          (snd (handle_client 2 [Chunk [0x61, 0x6C, 0x0A]]
             \<lparr>clients = [(1, [0x62])], closed = {}, broken = {}, wire = []\<rparr>)))"
proof -
  let ?W = "\<lparr>clients = [(1, [0x62 :: nat])], closed = {}, broken = {} :: nat set, wire = []\<rparr>"
  have rl: "recv_line False [Chunk [0x61, 0x6C, 0x0A]] = (Some [0x61, 0x6C], [])"
    by (simp add: recv_line_def recv_line_loop.simps utf8_step.simps)
  have st: "py_strip [0x61, 0x6C] \<noteq> []" by (simp add: py_strip_def py_isspace_def)
  have c: "2 \<notin> closed ?W" and b: "2 \<notin> broken ?W" by simp_all
  have wr: "writable ?W 2" by (simp add: writable_def)
  from join_line_to_all [OF rl st c b] rl st wr
  show ?thesis by blast
qed

text \<open>
  C2 as stated fails: socket 2 joins as \<^verbatim>\<open>al\<close> while socket 1 is registered, then the
  stream ends. Socket 2 is sent the welcome line and then its own join line.
\<close>

theorem join_line_echo_counterexample:
  "wire (snd (handle_client 2 [Chunk [0x61, 0x6C, 0x0A]]
           \<lparr>clients = [(1, [0x62])], closed = {}, broken = {}, wire = []\<rparr>))
   = [(2, py_encode_replace welcome_msg),
      (1, py_encode_replace (join_msg [0x61, 0x6C] @ [0x0A])),
      (2, py_encode_replace (join_msg [0x61, 0x6C] @ [0x0A])),
      (1, py_encode_replace (departure_msg [0x61, 0x6C] @ [0x0A]))]"
  by (simp add: handle_client_def handle_client_body_def recv_line_def recv_line_loop.simps
      session_loop.simps remove_client.simps broadcast.simps
      utf8_step.simps in_range_def py_strip_def py_isspace_def clients_set_def send_text_def
      sendall_def welcome_msg_def is_surrogate_def utf8_encode_cp_def join_msg_def sys_open_def
      clients_pop_def sock_close_def truthy_def departure_msg_def)

end
